theory Spec2Isabelle
  imports Complex_Main
begin

section \<open>Python string operations used by the pipeline\<close>

text \<open>
  Python strings are modelled as HOL strings, one \<^typ>\<open>char\<close> per code point below 256.
  \<open>py_isspace\<close> is \<^verbatim>\<open>str.isspace\<close> on that range, \<open>py_strip\<close> is \<^verbatim>\<open>str.strip()\<close> and
  \<open>py_find\<close> is \<^verbatim>\<open>str.find\<close> for a one-character needle, with \<open>None\<close> standing for
  the result \<^verbatim>\<open>-1\<close>.
\<close>

definition py_isspace :: "char \<Rightarrow> bool" where
  "py_isspace c = (c \<in> {CHR 0x09, CHR 0x0A, CHR 0x0B, CHR 0x0C, CHR 0x0D,
                          CHR 0x1C, CHR 0x1D, CHR 0x1E, CHR 0x1F, CHR 0x20,
                          CHR 0x85, CHR 0xA0})"

definition py_strip :: "string \<Rightarrow> string" where
  "py_strip s = rev (dropWhile py_isspace (rev (dropWhile py_isspace s)))"

fun py_find :: "char \<Rightarrow> string \<Rightarrow> nat option" where
  "py_find c [] = None"
| "py_find c (x # xs) = (if x = c then Some 0 else map_option Suc (py_find c xs))"

lemma length_py_strip_le: "length (py_strip s) \<le> length s"
proof -
  have "length (dropWhile py_isspace (rev (dropWhile py_isspace s)))
          \<le> length (rev (dropWhile py_isspace s))"
    by (rule length_dropWhile_le)
  also have "\<dots> \<le> length s"
    by (simp add: length_dropWhile_le)
  finally show ?thesis by (simp add: py_strip_def)
qed

lemma py_find_Some_lt: "py_find c s = Some p \<Longrightarrow> p < length s"
  by (induction s arbitrary: p) (auto split: if_splits)

lemma py_find_None_iff: "py_find c s = None \<longleftrightarrow> c \<notin> set s"
  by (induction s) auto

section \<open>The sentence segmenter of engine.py\<close>

text \<open>
  \<open>while_ending\<close> is the inner \<^verbatim>\<open>while ending in self.sentence_buffer\<close> loop of
  \<^verbatim>\<open>_extract_complete_sentences\<close>, on the pair of the buffer and the list of sentences
  collected so far. The branch \<open>None\<close> cannot be reached (\<open>py_find_None_iff\<close>).
\<close>

function while_ending :: "char \<Rightarrow> string \<times> string list \<Rightarrow> string \<times> string list" where
  "while_ending ending (buffer, sentences) =
     (if ending \<in> set buffer then
        (case py_find ending buffer of
           Some end_pos \<Rightarrow>
             (let sentence = py_strip (take (end_pos + 1) buffer)
              in while_ending ending
                   (py_strip (drop (end_pos + 1) buffer),
                    (if length sentence > 10 then sentences @ [sentence] else sentences)))
         | None \<Rightarrow> (buffer, sentences))
      else (buffer, sentences))"
  by pat_completeness auto
termination
proof (relation "measure (\<lambda>(e, b, s). length b)")
  show "wf (measure (\<lambda>(e, b, s). length b))" by simp
next
  fix ending :: char and buffer :: string and sentences :: "string list"
    and end_pos :: nat and sentence :: string
  assume "py_find ending buffer = Some end_pos"
  then have "end_pos < length buffer" by (rule py_find_Some_lt)
  moreover have "length (py_strip (drop (end_pos + 1) buffer))
                   \<le> length (drop (end_pos + 1) buffer)"
    by (rule length_py_strip_le)
  ultimately show "((ending, py_strip (drop (end_pos + 1) buffer),
                     if 10 < length sentence then sentences @ [sentence] else sentences),
                    (ending, buffer, sentences))
                   \<in> measure (\<lambda>(e, b, s). length b)"
    by simp
qed

declare while_ending.simps [simp del]

definition sentence_endings :: "char list" where
  "sentence_endings = [CHR ''.'', CHR ''!'', CHR ''?'']"

definition extract_complete_sentences :: "string \<Rightarrow> string \<times> string list" where
  "extract_complete_sentences buffer =
     fold while_ending sentence_endings (buffer, [])"


section \<open>The two-pass engine of engine.py\<close>

text \<open>
  A transcript dictionary \<^verbatim>\<open>{"id", "text", "status"}\<close> is the record \<open>entry\<close>; the
  \<^verbatim>\<open>"timestamp"\<close> key of a refined entry is a floating-point clock reading that nothing in
  the engine reads back, and is left out. A refine job is \<^verbatim>\<open>{"id", "audio"}\<close>. The audio
  chunk type is a parameter.
\<close>

record entry =
  entry_id :: nat
  entry_text :: string
  entry_status :: string

record 'a job =
  job_id :: nat
  job_audio :: 'a

text \<open>
  The state shared by the threads of \<^verbatim>\<open>TranscriptionEngine\<close>. \<open>chunk_id\<close> is the local
  counter of \<^verbatim>\<open>_streaming_thread\<close>; \<open>callback_log\<close> lists the
  \<^verbatim>\<open>update_callback("transcript", ...)\<close> calls in order and \<open>stdout\<close> the printed lines.
\<close>

record 'a engine =
  audio_queue :: "'a list"
  refine_queue :: "'a job list"
  session_transcripts :: "entry list"
  sentence_buffer :: string
  chunk_id :: nat
  callback_log :: "entry list"
  stdout :: "string list"
  session_file :: string

definition engine_init :: "string \<Rightarrow> 'a engine" where
  "engine_init path =
     \<lparr>audio_queue = [], refine_queue = [], session_transcripts = [], sentence_buffer = [],
      chunk_id = 0, callback_log = [], stdout = [], session_file = path\<rparr>"

text \<open>
  An ASR pipeline maps a chunk to \<open>Inr text\<close> (the value of \<^verbatim>\<open>result["text"]\<close>) or to
  \<open>Inl message\<close> when the call raises. \<open>None\<close> is a pipeline not yet initialised.
\<close>

type_synonym 'a pipeline = "('a \<Rightarrow> string + string) option"

text \<open>
  Lines 188-194 of \<^verbatim>\<open>_streaming_thread\<close>: the stripped transcript is added to the sentence
  buffer when it has more than two characters, and the complete sentences are cut off.
  \<open>None\<close> is the skipped branch.
\<close>

definition feed :: "string \<Rightarrow> string \<Rightarrow> (string \<times> string list) option" where
  "feed buffer transcript =
     (if transcript \<noteq> [] \<and> length transcript > 2
      then Some (extract_complete_sentences (py_strip (buffer @ '' '' @ transcript)))
      else None)"

text \<open>Lines 195-198: one callback per non-blank sentence, each with the next id.\<close>

fun emit_sentences :: "string list \<Rightarrow> nat \<times> entry list \<Rightarrow> nat \<times> entry list" where
  "emit_sentences [] (cid, cb) = (cid, cb)"
| "emit_sentences (sentence # rest) (cid, cb) =
     (if py_strip sentence \<noteq> []
      then emit_sentences rest
             (cid + 1,
              cb @ [\<lparr>entry_id = cid, entry_text = sentence, entry_status = ''Streaming''\<rparr>])
      else emit_sentences rest (cid, cb))"

text \<open>One iteration of the loop of \<^verbatim>\<open>_streaming_thread\<close> (lines 177-207).\<close>

definition streaming_iteration :: "'a pipeline \<Rightarrow> 'a engine \<Rightarrow> 'a engine" where
  "streaming_iteration streaming_pipeline st =
     (case streaming_pipeline of
        None \<Rightarrow> st
      | Some pipe \<Rightarrow>
          (case audio_queue st of
             [] \<Rightarrow> st
           | audio_chunk # remaining \<Rightarrow>
               (case pipe audio_chunk of
                  Inl e \<Rightarrow>
                    st\<lparr>audio_queue := remaining,
                       stdout := stdout st @ [''Streaming error: '' @ e]\<rparr>
                | Inr result_text \<Rightarrow>
                    (case feed (sentence_buffer st) (py_strip result_text) of
                       None \<Rightarrow> st\<lparr>audio_queue := remaining\<rparr>
                     | Some (buffer', sentences) \<Rightarrow>
                         (case emit_sentences sentences (chunk_id st, callback_log st) of
                            (cid, cb) \<Rightarrow>
                              st\<lparr>audio_queue := remaining,
                                 sentence_buffer := buffer',
                                 chunk_id := cid,
                                 callback_log := cb,
                                 refine_queue := refine_queue st @
                                   [\<lparr>job_id = cid, job_audio = audio_chunk\<rparr>]\<rparr>)))))"

text \<open>One iteration of the loop of \<^verbatim>\<open>_refining_thread\<close> (lines 229-254).\<close>

definition refining_iteration :: "'a pipeline \<Rightarrow> 'a engine \<Rightarrow> 'a engine" where
  "refining_iteration refining_pipeline st =
     (case refining_pipeline of
        None \<Rightarrow> st
      | Some pipe \<Rightarrow>
          (case refine_queue st of
             [] \<Rightarrow> st
           | job # remaining \<Rightarrow>
               (case pipe (job_audio job) of
                  Inl e \<Rightarrow>
                    st\<lparr>refine_queue := remaining,
                       stdout := stdout st @ [''Refining error: '' @ e]\<rparr>
                | Inr result_text \<Rightarrow>
                    (let transcript = py_strip result_text in
                     if transcript \<noteq> [] \<and> length transcript > 2 then
                       (let transcript_data =
                              \<lparr>entry_id = job_id job, entry_text = transcript,
                               entry_status = ''Refined''\<rparr>
                        in st\<lparr>refine_queue := remaining,
                              session_transcripts := session_transcripts st @ [transcript_data],
                              callback_log := callback_log st @ [transcript_data]\<rparr>)
                     else st\<lparr>refine_queue := remaining\<rparr>))))"

text \<open>
  Lines 153-156 of \<^verbatim>\<open>_audio_input_thread\<close>: a full chunk is put on the unbounded audio queue.
\<close>

definition capture :: "'a \<Rightarrow> 'a engine \<Rightarrow> 'a engine" where
  "capture chunk st = st\<lparr>audio_queue := audio_queue st @ [chunk]\<rparr>"

text \<open>
  The threads interleave at the granularity of their loop iterations: each thread owns the
  fields it writes and meets the others only at the queues. A run is a list of steps.
\<close>

datatype 'a step = Capture 'a | Stream "'a pipeline" | Refine "'a pipeline"

fun engine_step :: "'a step \<Rightarrow> 'a engine \<Rightarrow> 'a engine" where
  "engine_step (Capture chunk) st = capture chunk st"
| "engine_step (Stream p) st = streaming_iteration p st"
| "engine_step (Refine p) st = refining_iteration p st"

definition engine_run :: "'a step list \<Rightarrow> 'a engine \<Rightarrow> 'a engine" where
  "engine_run steps st = fold engine_step steps st"

text \<open>
  \<open>streaming_ids\<close> lists the ids of the Streaming entries of a callback log, in the order
  of the calls.
\<close>

definition streaming_ids :: "entry list \<Rightarrow> nat list" where
  "streaming_ids cb = map entry_id (filter (\<lambda>t. entry_status t = ''Streaming'') cb)"

subsection \<open>The worker loops\<close>

text \<open>
  The loops \<^verbatim>\<open>while self.is_running\<close> of the two workers. The list gives the values of
  \<^verbatim>\<open>is_running\<close> that the loop reads at its tests, one after the other (\<^verbatim>\<open>stop\<close> sets
  the flag from another thread). A worker has \<open>Exited\<close> when it has read false and left
  its loop; it is \<open>Looping\<close> when every test so far read true. Nothing else ends a
  loop: the body is inside \<^verbatim>\<open>try\<close> with \<^verbatim>\<open>except Exception\<close>.
\<close>

datatype thread_status = Looping | Exited

fun streaming_thread :: "'a pipeline \<Rightarrow> bool list \<Rightarrow> 'a engine \<Rightarrow> thread_status \<times> 'a engine" where
  "streaming_thread p [] st = (Looping, st)"
| "streaming_thread p (is_running # later) st =
     (if is_running then streaming_thread p later (streaming_iteration p st) else (Exited, st))"

fun refining_thread :: "'a pipeline \<Rightarrow> bool list \<Rightarrow> 'a engine \<Rightarrow> thread_status \<times> 'a engine" where
  "refining_thread p [] st = (Looping, st)"
| "refining_thread p (is_running # later) st =
     (if is_running then refining_thread p later (refining_iteration p st) else (Exited, st))"

text \<open>
  What a pipeline makes of the items of a queue. A chunk is \<open>refinable\<close> when the
  streaming pipeline returns a transcript of more than two characters for it;
  \<open>streaming_errors\<close> are the lines printed for the chunks on which it raises.
  \<open>refined_entries\<close> are the entries the refining pipeline yields for a list of jobs and
  \<open>refining_errors\<close> the lines printed for the jobs on which it raises.
\<close>

definition refinable :: "('a \<Rightarrow> string + string) \<Rightarrow> 'a \<Rightarrow> bool" where
  "refinable pipe chunk =
     (case pipe chunk of Inl e \<Rightarrow> False | Inr result_text \<Rightarrow> 2 < length (py_strip result_text))"

definition streaming_errors :: "('a \<Rightarrow> string + string) \<Rightarrow> 'a list \<Rightarrow> string list" where
  "streaming_errors pipe chunks =
     concat (map (\<lambda>chunk. case pipe chunk of
                             Inl e \<Rightarrow> [''Streaming error: '' @ e]
                           | Inr result_text \<Rightarrow> []) chunks)"

definition refined_entries :: "('a \<Rightarrow> string + string) \<Rightarrow> 'a job list \<Rightarrow> entry list" where
  "refined_entries pipe jobs =
     concat (map (\<lambda>job. case pipe (job_audio job) of
                           Inl e \<Rightarrow> []
                         | Inr result_text \<Rightarrow>
                             if 2 < length (py_strip result_text)
                             then [\<lparr>entry_id = job_id job, entry_text = py_strip result_text,
                                    entry_status = ''Refined''\<rparr>]
                             else []) jobs)"

definition refining_errors :: "('a \<Rightarrow> string + string) \<Rightarrow> 'a job list \<Rightarrow> string list" where
  "refining_errors pipe jobs =
     concat (map (\<lambda>job. case pipe (job_audio job) of
                           Inl e \<Rightarrow> [''Refining error: '' @ e]
                         | Inr result_text \<Rightarrow> []) jobs)"

subsection \<open>Saving the session\<close>

text \<open>
  \<open>session_writes\<close> lists the strings \<^verbatim>\<open>_save_session\<close> passes to \<^verbatim>\<open>f.write\<close>, in order;
  \<open>now\<close> is the value of \<^verbatim>\<open>datetime.now().strftime('%Y-%m-%d %H:%M:%S')\<close> at the call.
\<close>

definition newline :: char where
  "newline = CHR 0x0A"

definition record_line :: "entry \<Rightarrow> string" where
  "record_line transcript =
     ''['' @ entry_status transcript @ ''] '' @ entry_text transcript @ [newline, newline]"

definition session_writes :: "string \<Rightarrow> entry list \<Rightarrow> string list" where
  "session_writes now transcripts =
     (''Transcription Session - '' @ now @ [newline])
     # (replicate 50 CHR ''='' @ [newline, newline])
     # map record_line transcripts"

text \<open>
  The file system maps a path to the contents of the file there. What the environment does
  to one call of \<^verbatim>\<open>_save_session\<close> is an \<open>io_outcome\<close>: every call succeeds, or
  \<^verbatim>\<open>open(path, 'w')\<close> raises, or the open succeeds (truncating the file, as mode
  \<^verbatim>\<open>'w'\<close> does) and an error is raised while writing, when the data of the first
  \<open>n\<close> calls of \<^verbatim>\<open>f.write\<close> has reached the file; the \<^verbatim>\<open>with\<close> block closes
  the file and the handler prints the error.
\<close>

type_synonym files = "string \<rightharpoonup> string"

datatype io_outcome = IoOk | OpenRaises string | WriteRaises nat string

definition save_session :: "io_outcome \<Rightarrow> string \<Rightarrow> 'a engine \<times> files \<Rightarrow> 'a engine \<times> files" where
  "save_session io now world =
     (case world of (st, fs) \<Rightarrow>
        (let writes = session_writes now (session_transcripts st);
             saved = (st\<lparr>stdout := stdout st @ [''Session saved to '' @ session_file st]\<rparr>,
                      fs(session_file st \<mapsto> concat writes))
         in case io of
              IoOk \<Rightarrow> saved
            | OpenRaises e \<Rightarrow>
                (st\<lparr>stdout := stdout st @ [''Error saving session: '' @ e]\<rparr>, fs)
            | WriteRaises n e \<Rightarrow>
                if n < length writes
                then (st\<lparr>stdout := stdout st @ [''Error saving session: '' @ e]\<rparr>,
                      fs(session_file st \<mapsto> concat (take n writes)))
                else saved))"

section \<open>The single-pass streaming thread of transcription_engine.py\<close>

text \<open>
  The sibling engine: its refine job is \<^verbatim>\<open>{"id", "audio", "text"}\<close>. Its loop catches
  \<^verbatim>\<open>queue.Empty\<close> only, so a pipeline call that raises ends the thread
  (\<open>te_streaming_alive\<close> becomes false). The attribute \<^verbatim>\<open>streaming_pipeline\<close> is set
  by \<^verbatim>\<open>_initialize_models\<close> only: before that (the pipeline \<open>None\<close>) the test at line 119
  raises \<^verbatim>\<open>AttributeError\<close> on the chunk just taken, which ends the thread too.
\<close>

record 'a te_job =
  te_job_id :: nat
  te_job_audio :: 'a
  te_job_text :: string

record 'a te_engine =
  te_audio_queue :: "'a list"
  te_refine_queue :: "'a te_job list"
  te_chunk_id :: nat
  te_callback_log :: "entry list"
  te_streaming_alive :: bool

definition te_init :: "'a te_engine" where
  "te_init = \<lparr>te_audio_queue = [], te_refine_queue = [], te_chunk_id = 0,
              te_callback_log = [], te_streaming_alive = True\<rparr>"

definition te_streaming_iteration :: "'a pipeline \<Rightarrow> 'a te_engine \<Rightarrow> 'a te_engine" where
  "te_streaming_iteration streaming_pipeline st =
     (if \<not> te_streaming_alive st then st
      else
        (case te_audio_queue st of
           [] \<Rightarrow> st
         | audio_chunk # remaining \<Rightarrow>
             (case streaming_pipeline of
                None \<Rightarrow> st\<lparr>te_audio_queue := remaining, te_streaming_alive := False\<rparr>
              | Some pipe \<Rightarrow>
                  (case pipe audio_chunk of
                     Inl e \<Rightarrow> st\<lparr>te_audio_queue := remaining, te_streaming_alive := False\<rparr>
                   | Inr transcript \<Rightarrow>
                       st\<lparr>te_audio_queue := remaining,
                          te_callback_log := te_callback_log st @
                            [\<lparr>entry_id = te_chunk_id st, entry_text = transcript,
                              entry_status = ''Streaming''\<rparr>],
                          te_refine_queue := te_refine_queue st @
                            [\<lparr>te_job_id = te_chunk_id st, te_job_audio = audio_chunk,
                              te_job_text = transcript\<rparr>],
                          te_chunk_id := te_chunk_id st + 1\<rparr>))))"

section \<open>The capture thread of engine_lightweight.py\<close>

text \<open>
  \<^verbatim>\<open>queue.Queue(maxsize)\<close> as the list of its items, oldest first; \<open>maxsize = 0\<close> is the
  unbounded queue. \<open>put_nowait\<close> raises \<^verbatim>\<open>queue.Full\<close> on a full queue, and
  \<open>enqueue_chunk\<close> is lines 206-211 of \<^verbatim>\<open>_audio_input_thread\<close> on the queue and the
  printed lines (the warning sign of the message is left out). The engine's own queue has
  \<open>audio_queue_maxsize\<close> as its bound.
\<close>

datatype queue_error = Full

definition put_nowait :: "nat \<Rightarrow> 'a list \<Rightarrow> 'a \<Rightarrow> queue_error + 'a list" where
  "put_nowait maxsize q item =
     (if 0 < maxsize \<and> maxsize \<le> length q then Inl Full else Inr (q @ [item]))"

definition enqueue_chunk :: "nat \<Rightarrow> 'a \<Rightarrow> 'a list \<times> string list \<Rightarrow> 'a list \<times> string list" where
  "enqueue_chunk maxsize chunk qs =
     (case qs of (q, out) \<Rightarrow>
        (case put_nowait maxsize q chunk of
           Inr q' \<Rightarrow> (q', out)
         | Inl Full \<Rightarrow> (q, out @ [''Audio queue full, skipping chunk''])))"

definition audio_queue_maxsize :: nat where
  "audio_queue_maxsize = 3"

text \<open>
  The state the capture thread works on: the sample buffer, the queue of chunks (a chunk is
  a list of samples), the printed lines, and the clock readings of the last memory check
  and the last cleanup. Clock readings and the memory reading are real numbers.
\<close>

record 'a lw_engine =
  lw_audio_buffer :: "'a list"
  lw_audio_queue :: "'a list list"
  lw_stdout :: "string list"
  last_memory_check :: real
  last_cleanup :: real

definition lw_init :: "real \<Rightarrow> 'a lw_engine" where
  "lw_init now =
     \<lparr>lw_audio_buffer = [], lw_audio_queue = [], lw_stdout = [],
      last_memory_check = now, last_cleanup = now\<rparr>"

definition memory_check_interval :: real where
  "memory_check_interval = 10"

definition cleanup_interval :: real where
  "cleanup_interval = 60"

text \<open>
  \<^verbatim>\<open>_cleanup_memory\<close> clears the sample buffer and takes every chunk off the queue;
  \<^verbatim>\<open>_check_memory_usage\<close> on the memory reading \<open>memory_mb\<close> prints above 500 MB (the
  number is left out of the line) and forces a cleanup above 1000 MB.
\<close>

definition cleanup_memory :: "'a lw_engine \<Rightarrow> 'a lw_engine" where
  "cleanup_memory st =
     st\<lparr>lw_audio_buffer := [], lw_audio_queue := [],
        lw_stdout := lw_stdout st @ [''Memory cleanup completed'']\<rparr>"

definition check_memory_usage :: "real \<Rightarrow> 'a lw_engine \<Rightarrow> 'a lw_engine" where
  "check_memory_usage memory_mb st =
     (if memory_mb > 500 then
        (if memory_mb > 1000
         then cleanup_memory
                (st\<lparr>lw_stdout := lw_stdout st @ [''Memory usage'', ''Forcing memory cleanup...'']\<rparr>)
         else st\<lparr>lw_stdout := lw_stdout st @ [''Memory usage'']\<rparr>)
      else st)"

text \<open>
  One iteration of the loop of \<^verbatim>\<open>_audio_input_thread\<close> (lines 189-227). Its input is what
  the environment gives it: the frame read from the stream (\<open>Inl\<close> when the read raises),
  the value of \<^verbatim>\<open>time.time()\<close> and the memory reading. \<open>chunk_samples\<close> is also the
  bound \<^verbatim>\<open>max_buffer_size\<close> of the buffer (line 68).
\<close>

definition audio_input_iteration ::
  "nat \<Rightarrow> nat \<Rightarrow> (string + 'a list) \<times> real \<times> real \<Rightarrow> 'a lw_engine \<Rightarrow> 'a lw_engine" where
  "audio_input_iteration chunk_samples maxsize input st =
     (case input of (frame, current_time, memory_mb) \<Rightarrow>
        (case frame of
           Inl e \<Rightarrow> st\<lparr>lw_stdout := lw_stdout st @ [''Audio read error: '' @ e]\<rparr>
         | Inr new_data \<Rightarrow>
             (let kept = (if length (lw_audio_buffer st) > chunk_samples
                          then drop (length (lw_audio_buffer st) - chunk_samples)
                                 (lw_audio_buffer st)
                          else lw_audio_buffer st);
                  buffer = kept @ new_data;
                  st1 = (if length buffer \<ge> chunk_samples
                         then (case enqueue_chunk maxsize (take chunk_samples buffer)
                                      (lw_audio_queue st, lw_stdout st) of
                                 (q, out) \<Rightarrow>
                                   st\<lparr>lw_audio_buffer := drop chunk_samples buffer,
                                      lw_audio_queue := q, lw_stdout := out\<rparr>)
                         else st\<lparr>lw_audio_buffer := buffer\<rparr>);
                  st2 = (if current_time - last_memory_check st1 > memory_check_interval
                         then (check_memory_usage memory_mb st1)
                                \<lparr>last_memory_check := current_time\<rparr>
                         else st1)
              in if current_time - last_cleanup st2 > cleanup_interval
                 then (cleanup_memory st2)\<lparr>last_cleanup := current_time\<rparr>
                 else st2)))"

definition audio_input_run ::
  "nat \<Rightarrow> nat \<Rightarrow> ((string + 'a list) \<times> real \<times> real) list \<Rightarrow> 'a lw_engine \<Rightarrow> 'a lw_engine" where
  "audio_input_run chunk_samples maxsize inputs st =
     fold (audio_input_iteration chunk_samples maxsize) inputs st"

text \<open>The samples of a frame that was read; none for a read that raised.\<close>

definition frame_data :: "(string + 'a list) \<times> real \<times> real \<Rightarrow> 'a list" where
  "frame_data input = (case fst input of Inl e \<Rightarrow> [] | Inr new_data \<Rightarrow> new_data)"

text \<open>
  The chunks of a sample stream: its consecutive blocks of \<open>chunk_samples\<close> samples, a
  last shorter rest left out.
\<close>

function stream_chunks :: "nat \<Rightarrow> 'a list \<Rightarrow> 'a list list" where
  "stream_chunks chunk_samples samples =
     (if chunk_samples = 0 \<or> length samples < chunk_samples then []
      else take chunk_samples samples # stream_chunks chunk_samples (drop chunk_samples samples))"
  by pat_completeness auto
termination
  by (relation "measure (\<lambda>(n, xs). length xs)") auto

declare stream_chunks.simps [simp del]

section \<open>Sessions of main.py\<close>













section \<open>The segmenter as the specification words it\<close>

text \<open>
  Modelled from the spec: section 4.3 describes one scan, left to right, that cuts at each
  occurrence of any of the three sentence endings. \<open>find_ending\<close> is the position of the
  first sentence ending of any kind and \<open>spec_left_to_right_scan\<close> cuts there, again and
  again; the length filter and the stripping are those of the code.
\<close>

fun find_ending :: "string \<Rightarrow> nat option" where
  "find_ending [] = None"
| "find_ending (x # xs) =
     (if x \<in> set sentence_endings then Some 0 else map_option Suc (find_ending xs))"

lemma find_ending_Some_lt: "find_ending s = Some p \<Longrightarrow> p < length s"
  by (induction s arbitrary: p) (auto split: if_splits)

function spec_left_to_right_scan :: "string \<times> string list \<Rightarrow> string \<times> string list" where
  "spec_left_to_right_scan (buffer, sentences) =
     (case find_ending buffer of
        None \<Rightarrow> (buffer, sentences)
      | Some end_pos \<Rightarrow>
          (let candidate = py_strip (take (end_pos + 1) buffer)
           in spec_left_to_right_scan
                (py_strip (drop (end_pos + 1) buffer),
                 (if length candidate > 10 then sentences @ [candidate] else sentences))))"
  by pat_completeness auto
termination
proof (relation "measure (\<lambda>(b, s). length b)")
  show "wf (measure (\<lambda>(b, s). length b))" by simp
next
  fix buffer :: string and sentences :: "string list" and end_pos :: nat and candidate :: string
  assume "find_ending buffer = Some end_pos"
  then have "end_pos < length buffer" by (rule find_ending_Some_lt)
  moreover have "length (py_strip (drop (end_pos + 1) buffer)) \<le> length (drop (end_pos + 1) buffer)"
    by (rule length_py_strip_le)
  ultimately show "((py_strip (drop (end_pos + 1) buffer),
                     if 10 < length candidate then sentences @ [candidate] else sentences),
                    (buffer, sentences))
                   \<in> measure (\<lambda>(b, s). length b)"
    by simp
qed

declare spec_left_to_right_scan.simps [simp del]

text \<open>
  The code scans for the full stops first, then for the exclamation marks, then for the
  question marks. A buffer has its endings in the order of that loop when no exclamation or
  question mark stands before a full stop and no question mark before an exclamation mark.
\<close>

definition ending_rank :: "char \<Rightarrow> nat" where
  "ending_rank c = (if c = CHR ''.'' then 0 else if c = CHR ''!'' then 1 else 2)"

definition endings_in_loop_order :: "string \<Rightarrow> bool" where
  "endings_in_loop_order buffer =
     sorted (map ending_rank (filter (\<lambda>c. c \<in> set sentence_endings) buffer))"

section \<open>Properties of the sentence segmenter\<close>

lemma set_py_strip_subset: "set (py_strip s) \<subseteq> set s"
proof -
  have "set (dropWhile py_isspace (rev (dropWhile py_isspace s))) \<subseteq> set (rev (dropWhile py_isspace s))"
    using set_dropWhileD by fastforce
  also have "\<dots> \<subseteq> set s" using set_dropWhileD[of _ py_isspace s] by auto
  finally show ?thesis by (simp add: py_strip_def)
qed

lemma while_ending_unfold:
  "while_ending e (b, ss) =
     (case py_find e b of
        None \<Rightarrow> (b, ss)
      | Some p \<Rightarrow> while_ending e (py_strip (drop (p + 1) b),
                     if 10 < length (py_strip (take (p + 1) b))
                     then ss @ [py_strip (take (p + 1) b)] else ss))"
proof (cases "py_find e b")
  case None
  then have "e \<notin> set b" by (simp add: py_find_None_iff)
  then show ?thesis using None by (subst while_ending.simps) simp
next
  case (Some p)
  then have "e \<in> set b" using py_find_None_iff[of e b] by auto
  then show ?thesis using Some by (subst while_ending.simps) (simp add: Let_def)
qed

lemma while_ending_None: "py_find e b = None \<Longrightarrow> while_ending e (b, ss) = (b, ss)"
  by (subst while_ending_unfold) simp

lemma while_ending_Some:
  "py_find e b = Some p \<Longrightarrow>
   while_ending e (b, ss) =
     while_ending e (py_strip (drop (p + 1) b),
                     if 10 < length (py_strip (take (p + 1) b))
                     then ss @ [py_strip (take (p + 1) b)] else ss)"
  by (subst while_ending_unfold) simp

lemma cut_shorter: "py_find e b = Some p \<Longrightarrow> length (py_strip (drop (p + 1) b)) < length b"
  using py_find_Some_lt[of e b p] length_py_strip_le[of "drop (p + 1) b"] by simp

lemma while_ending_cases_induct [consumes 0, case_names Done Cut]:
  assumes stop: "\<And>b ss. py_find e b = None \<Longrightarrow> P b ss"
    and cut: "\<And>b ss p. py_find e b = Some p \<Longrightarrow>
               P (py_strip (drop (p + 1) b))
                 (if 10 < length (py_strip (take (p + 1) b))
                  then ss @ [py_strip (take (p + 1) b)] else ss) \<Longrightarrow> P b ss"
  shows "P b ss"
proof (induction b arbitrary: ss rule: length_induct)
  case (1 b)
  show ?case
  proof (cases "py_find e b")
    case None
    then show ?thesis by (rule stop)
  next
    case (Some p)
    show ?thesis
      by (rule cut[OF Some]) (use "1.IH" cut_shorter[OF Some] in blast)
  qed
qed

lemma while_ending_long:
  "(\<forall>s\<in>set ss. 10 < length s) \<Longrightarrow> \<forall>s\<in>set (snd (while_ending e (b, ss))). 10 < length s"
proof (induction b ss rule: while_ending_cases_induct[where e = e])
  case (Done b ss)
  have "while_ending e (b, ss) = (b, ss)" using Done.hyps by (rule while_ending_None)
  then show ?case using Done.prems by simp
next
  case (Cut b ss p)
  let ?c = "py_strip (take (p + 1) b)"
  let ?ss = "if 10 < length ?c then ss @ [?c] else ss"
  have eq: "while_ending e (b, ss) = while_ending e (py_strip (drop (p + 1) b), ?ss)"
    using Cut.hyps by (rule while_ending_Some)
  have "\<forall>s\<in>set ?ss. 10 < length s" using Cut.prems by simp
  then have "\<forall>s\<in>set (snd (while_ending e (py_strip (drop (p + 1) b), ?ss))). 10 < length s"
    by (rule Cut.IH)
  then show ?case unfolding eq .
qed

lemma while_ending_buffer_subset: "set (fst (while_ending e (b, ss))) \<subseteq> set b"
proof (induction b ss rule: while_ending_cases_induct[where e = e])
  case (Done b ss)
  have "while_ending e (b, ss) = (b, ss)" using Done.hyps by (rule while_ending_None)
  then show ?case by simp
next
  case (Cut b ss p)
  let ?c = "py_strip (take (p + 1) b)"
  let ?ss = "if 10 < length ?c then ss @ [?c] else ss"
  have eq: "while_ending e (b, ss) = while_ending e (py_strip (drop (p + 1) b), ?ss)"
    using Cut.hyps by (rule while_ending_Some)
  have "set (py_strip (drop (p + 1) b)) \<subseteq> set b"
    using set_py_strip_subset[of "drop (p + 1) b"] set_drop_subset[of "p + 1" b] by blast
  with Cut.IH show ?case unfolding eq by blast
qed

lemma while_ending_no_ending: "e \<notin> set (fst (while_ending e (b, ss)))"
proof (induction b ss rule: while_ending_cases_induct[where e = e])
  case (Done b ss)
  have "while_ending e (b, ss) = (b, ss)" using Done.hyps by (rule while_ending_None)
  then show ?case using Done.hyps by (simp add: py_find_None_iff)
next
  case (Cut b ss p)
  let ?c = "py_strip (take (p + 1) b)"
  let ?ss = "if 10 < length ?c then ss @ [?c] else ss"
  have eq: "while_ending e (b, ss) = while_ending e (py_strip (drop (p + 1) b), ?ss)"
    using Cut.hyps by (rule while_ending_Some)
  show ?case unfolding eq by (rule Cut.IH)
qed

lemma extract_unfold:
  "extract_complete_sentences b =
     while_ending CHR ''?'' (while_ending CHR ''!'' (while_ending CHR ''.'' (b, [])))"
  by (simp add: extract_complete_sentences_def sentence_endings_def)

lemma extract_long: "\<forall>s\<in>set (snd (extract_complete_sentences b)). 10 < length s"
proof -
  obtain b1 s1 where r1: "while_ending CHR ''.'' (b, []) = (b1, s1)" by (cases "while_ending CHR ''.'' (b, [])")
  obtain b2 s2 where r2: "while_ending CHR ''!'' (b1, s1) = (b2, s2)" by (cases "while_ending CHR ''!'' (b1, s1)")
  have "\<forall>s\<in>set s1. 10 < length s" using while_ending_long[of "[]" "CHR ''.''" b] r1 by simp
  then have "\<forall>s\<in>set s2. 10 < length s" using while_ending_long[of s1 "CHR ''!''" b1] r2 by simp
  then have "\<forall>s\<in>set (snd (while_ending CHR ''?'' (b2, s2))). 10 < length s"
    by (rule while_ending_long)
  then show ?thesis by (simp add: extract_unfold r1 r2)
qed

lemma extract_no_endings:
  "\<forall>e\<in>set sentence_endings. e \<notin> set (fst (extract_complete_sentences b))"
proof -
  obtain b1 s1 where r1: "while_ending CHR ''.'' (b, []) = (b1, s1)" by (cases "while_ending CHR ''.'' (b, [])")
  obtain b2 s2 where r2: "while_ending CHR ''!'' (b1, s1) = (b2, s2)" by (cases "while_ending CHR ''!'' (b1, s1)")
  obtain b3 s3 where r3: "while_ending CHR ''?'' (b2, s2) = (b3, s3)" by (cases "while_ending CHR ''?'' (b2, s2)")
  have 1: "CHR ''.'' \<notin> set b1" using while_ending_no_ending[of "CHR ''.''" b "[]"] r1 by simp
  have 2: "CHR ''!'' \<notin> set b2" using while_ending_no_ending[of "CHR ''!''" b1 s1] r2 by simp
  have 3: "CHR ''?'' \<notin> set b3" using while_ending_no_ending[of "CHR ''?''" b2 s2] r3 by simp
  have s2: "set b2 \<subseteq> set b1" using while_ending_buffer_subset[of "CHR ''!''" b1 s1] r2 by simp
  have s3: "set b3 \<subseteq> set b2" using while_ending_buffer_subset[of "CHR ''?''" b2 s2] r3 by simp
  from 1 2 3 s2 s3 have "CHR ''.'' \<notin> set b3 \<and> CHR ''!'' \<notin> set b3 \<and> CHR ''?'' \<notin> set b3" by blast
  then show ?thesis by (simp add: extract_unfold r1 r2 r3 sentence_endings_def)
qed

text \<open>
  Claim C4. Every candidate the segmenter cuts that is not longer than 10 characters is
  discarded: the loop goes on with the rest of the buffer and the sentence list unchanged,
  every sentence a feed returns is longer than 10 characters, and the buffer a feed leaves
  holds no sentence ending, so no cut candidate stays in it.
\<close>

theorem short_sentences_discarded:
  "(py_find e b = Some p \<and> length (py_strip (take (p + 1) b)) \<le> 10
      \<longrightarrow> while_ending e (b, ss) = while_ending e (py_strip (drop (p + 1) b), ss))
   \<and> (feed buffer transcript = Some (buffer', sentences)
      \<longrightarrow> (\<forall>s\<in>set sentences. 10 < length s) \<and> (\<forall>c\<in>set sentence_endings. c \<notin> set buffer'))"
proof (intro conjI impI)
  assume a: "py_find e b = Some p \<and> length (py_strip (take (p + 1) b)) \<le> 10"
  then have "py_find e b = Some p" by simp
  then have "while_ending e (b, ss) =
     while_ending e (py_strip (drop (p + 1) b),
                     if 10 < length (py_strip (take (p + 1) b))
                     then ss @ [py_strip (take (p + 1) b)] else ss)"
    by (rule while_ending_Some)
  then show "while_ending e (b, ss) = while_ending e (py_strip (drop (p + 1) b), ss)"
    using a by simp
next
  assume f: "feed buffer transcript = Some (buffer', sentences)"
  then have ex: "extract_complete_sentences (py_strip (buffer @ '' '' @ transcript)) = (buffer', sentences)"
    by (simp add: feed_def split: if_splits)
  show "\<forall>s\<in>set sentences. 10 < length s"
    using extract_long[of "py_strip (buffer @ '' '' @ transcript)"] ex by simp
  show "\<forall>c\<in>set sentence_endings. c \<notin> set buffer'"
    using extract_no_endings[of "py_strip (buffer @ '' '' @ transcript)"] ex by simp
qed

theorem short_sentences_discarded_witness:
  "py_find CHR ''.'' ''Ok. This is a longer one.'' = Some 2
   \<and> length (py_strip (take 3 ''Ok. This is a longer one.'')) = 3
   \<and> while_ending CHR ''.'' (''Ok. This is a longer one.'', []) =
       while_ending CHR ''.'' (''This is a longer one.'', [])
   \<and> feed [] ''Ok.'' = Some ([], [])
   \<and> feed ''Ok'' ''then. This is a longer one. And'' = Some (''And'', [''This is a longer one.''])
   \<and> CHR ''.'' \<notin> set ''And''"
proof -
  have f: "py_find CHR ''.'' ''Ok. This is a longer one.'' = Some 2" by simp
  have l: "py_strip (take 3 ''Ok. This is a longer one.'') = ''Ok.''"
    by (simp add: py_strip_def py_isspace_def)
  have d: "py_strip (drop 3 ''Ok. This is a longer one.'') = ''This is a longer one.''"
    by (simp add: py_strip_def py_isspace_def)
  have f1: "feed [] ''Ok.'' = Some ([], [])" by code_simp
  have f2: "feed ''Ok'' ''then. This is a longer one. And'' = Some (''And'', [''This is a longer one.''])"
    by code_simp
  show ?thesis
    using short_sentences_discarded[of "CHR ''.''" "''Ok. This is a longer one.''" 2 "[]"
        "''Ok''" "''then. This is a longer one. And''" "''And''" "[''This is a longer one.'']"]
      f l d f1 f2
    by simp
qed

section \<open>Properties of the engine of engine.py\<close>

lemma streaming_iteration_session:
  "session_transcripts (streaming_iteration p st) = session_transcripts st"
  by (simp add: streaming_iteration_def split: option.splits list.splits sum.splits prod.splits)

lemma capture_session: "session_transcripts (capture c st) = session_transcripts st"
  by (simp add: capture_def)

lemma refining_iteration_session:
  "session_transcripts (refining_iteration p st) = session_transcripts st
   \<or> (\<exists>t. entry_status t = ''Refined''
          \<and> session_transcripts (refining_iteration p st) = session_transcripts st @ [t])"
  by (simp add: refining_iteration_def Let_def split: option.splits list.splits sum.splits)

lemma engine_step_refined:
  assumes "\<forall>t\<in>set (session_transcripts st). entry_status t = ''Refined''"
  shows "\<forall>t\<in>set (session_transcripts (engine_step s st)). entry_status t = ''Refined''"
proof (cases s)
  case (Capture c)
  then show ?thesis using assms by (simp add: capture_session)
next
  case (Stream p)
  then show ?thesis using assms by (simp add: streaming_iteration_session)
next
  case (Refine p)
  then show ?thesis using assms refining_iteration_session[of p st] by auto
qed

lemma engine_run_refined:
  "\<forall>t\<in>set (session_transcripts st). entry_status t = ''Refined'' \<Longrightarrow>
   \<forall>t\<in>set (session_transcripts (engine_run steps st)). entry_status t = ''Refined''"
  unfolding engine_run_def
proof (induction steps arbitrary: st)
  case Nil
  then show ?case by simp
next
  case (Cons s steps)
  have "\<forall>t\<in>set (session_transcripts (engine_step s st)). entry_status t = ''Refined''"
    using Cons.prems by (rule engine_step_refined)
  then have "\<forall>t\<in>set (session_transcripts (fold engine_step steps (engine_step s st))). entry_status t = ''Refined''"
    by (rule Cons.IH)
  then show ?case by simp
qed

lemma record_line_refined: "entry_status t = ''Refined'' \<Longrightarrow> take 10 (record_line t) = ''[Refined] ''"
  by (simp add: record_line_def)

text \<open>
  Claim C10. In every run of the engine from its initial state, every entry of
  \<open>session_transcripts\<close> has status Refined; an iteration of the streaming thread leaves
  \<open>session_transcripts\<close> as it was (its Streaming entries go to the callback only); and
  every record that saving the session writes after the two header lines starts with
  \<open>[Refined]\<close>.
\<close>

theorem persisted_entries_refined:
  "(\<forall>t\<in>set (session_transcripts (engine_run steps (engine_init path))). entry_status t = ''Refined'')
   \<and> session_transcripts (streaming_iteration p st) = session_transcripts st
   \<and> (\<forall>w\<in>set (drop 2 (session_writes now (session_transcripts (engine_run steps (engine_init path))))).
         take 10 w = ''[Refined] '')"
proof (intro conjI)
  have init: "\<forall>t\<in>set (session_transcripts (engine_init path :: 'a engine)). entry_status t = ''Refined''"
    by (simp add: engine_init_def)
  then show inv: "\<forall>t\<in>set (session_transcripts (engine_run steps (engine_init path))). entry_status t = ''Refined''"
    by (rule engine_run_refined)
  show "session_transcripts (streaming_iteration p st) = session_transcripts st"
    by (rule streaming_iteration_session)
  show "\<forall>w\<in>set (drop 2 (session_writes now (session_transcripts (engine_run steps (engine_init path))))).
         take 10 w = ''[Refined] ''"
    using inv by (auto simp: session_writes_def record_line_refined)
qed

theorem persisted_entries_refined_witness:
  "session_transcripts
     (engine_run [Capture (0::nat), Stream (Some (\<lambda>c. Inr ''This is chunk one. '')),
                  Refine (Some (\<lambda>c. Inr ''THIS IS CHUNK ONE. ''))] (engine_init ''s.txt''))
     = [\<lparr>entry_id = 1, entry_text = ''THIS IS CHUNK ONE.'', entry_status = ''Refined''\<rparr>]
   \<and> callback_log
     (engine_run [Capture (0::nat), Stream (Some (\<lambda>c. Inr ''This is chunk one. '')),
                  Refine (Some (\<lambda>c. Inr ''THIS IS CHUNK ONE. ''))] (engine_init ''s.txt''))
     = [\<lparr>entry_id = 0, entry_text = ''This is chunk one.'', entry_status = ''Streaming''\<rparr>,
        \<lparr>entry_id = 1, entry_text = ''THIS IS CHUNK ONE.'', entry_status = ''Refined''\<rparr>]
   \<and> drop 2 (session_writes ''2024-01-01 10:00:00''
        [\<lparr>entry_id = 1, entry_text = ''THIS IS CHUNK ONE.'', entry_status = ''Refined''\<rparr>])
     = [''[Refined] THIS IS CHUNK ONE.'' @ [newline, newline]]"
proof -
  let ?steps = "[Capture (0::nat), Stream (Some (\<lambda>c. Inr ''This is chunk one. '')),
                  Refine (Some (\<lambda>c. Inr ''THIS IS CHUNK ONE. ''))]"
  have a: "session_transcripts (engine_run ?steps (engine_init ''s.txt''))
     = [\<lparr>entry_id = 1, entry_text = ''THIS IS CHUNK ONE.'', entry_status = ''Refined''\<rparr>]"
    by code_simp
  have b: "callback_log (engine_run ?steps (engine_init ''s.txt''))
     = [\<lparr>entry_id = 0, entry_text = ''This is chunk one.'', entry_status = ''Streaming''\<rparr>,
        \<lparr>entry_id = 1, entry_text = ''THIS IS CHUNK ONE.'', entry_status = ''Refined''\<rparr>]"
    by code_simp
  have c: "drop 2 (session_writes ''2024-01-01 10:00:00''
        [\<lparr>entry_id = 1, entry_text = ''THIS IS CHUNK ONE.'', entry_status = ''Refined''\<rparr>])
     = [''[Refined] THIS IS CHUNK ONE.'' @ [newline, newline]]"
    by (simp add: session_writes_def record_line_def)
  show ?thesis
    using persisted_entries_refined[of ?steps "''s.txt''" "Some (\<lambda>c. Inr ''This is chunk one. '')"
        "engine_init ''s.txt''" "''2024-01-01 10:00:00''"] a b c
    by simp
qed

lemma streaming_failure_step:
  "audio_queue st = c # rest \<Longrightarrow> pipe c = Inl e \<Longrightarrow>
   streaming_iteration (Some pipe) st
     = st\<lparr>audio_queue := rest, stdout := stdout st @ [''Streaming error: '' @ e]\<rparr>"
  by (simp add: streaming_iteration_def)

lemma refining_failure_step:
  "refine_queue st = j # jobs \<Longrightarrow> pipe (job_audio j) = Inl e \<Longrightarrow>
   refining_iteration (Some pipe) st
     = st\<lparr>refine_queue := jobs, stdout := stdout st @ [''Refining error: '' @ e]\<rparr>"
  by (simp add: refining_iteration_def)

text \<open>
  The workers over a whole queue. While \<^verbatim>\<open>is_running\<close> reads true the worker goes through
  one iteration per test. After as many iterations as the queue has items the queue is
  empty; the streaming worker has put one job on the refine queue for each refinable
  chunk, in the order of the chunks, and printed one line for each chunk on which the
  pipeline raised; the refining worker has appended the refined entries and printed one
  line for each job on which the pipeline raised.
\<close>

lemma feed_Some_iff:
  "feed b t = (if 2 < length t then Some (extract_complete_sentences (py_strip (b @ '' '' @ t))) else None)"
  by (auto simp: feed_def)

lemma streaming_thread_running:
  "streaming_thread p (replicate n True) st = (Looping, (streaming_iteration p ^^ n) st)"
  by (induction n arbitrary: st) (simp_all add: funpow_swap1)

lemma refining_thread_running:
  "refining_thread p (replicate n True) st = (Looping, (refining_iteration p ^^ n) st)"
  by (induction n arbitrary: st) (simp_all add: funpow_swap1)


lemma streaming_iteration_pops:
  "audio_queue st = c # rest \<Longrightarrow>
   audio_queue (streaming_iteration (Some pipe) st) = rest"
  by (simp add: streaming_iteration_def split: sum.splits option.splits prod.splits)

lemma streaming_iteration_jobs:
  "audio_queue st = c # rest \<Longrightarrow>
   refine_queue (streaming_iteration (Some pipe) st)
     = refine_queue st @
         (if refinable pipe c
          then [\<lparr>job_id = chunk_id (streaming_iteration (Some pipe) st), job_audio = c\<rparr>]
          else [])"
  by (simp add: streaming_iteration_def refinable_def feed_Some_iff split: sum.splits prod.splits)

lemma streaming_iteration_prints:
  "audio_queue st = c # rest \<Longrightarrow>
   stdout (streaming_iteration (Some pipe) st) = stdout st @ streaming_errors pipe [c]"
  by (simp add: streaming_iteration_def streaming_errors_def split: sum.splits option.splits prod.splits)

lemma streaming_drains:
  "audio_queue st = q \<Longrightarrow>
   audio_queue ((streaming_iteration (Some pipe) ^^ length q) st) = []
   \<and> map job_audio (refine_queue ((streaming_iteration (Some pipe) ^^ length q) st))
       = map job_audio (refine_queue st) @ filter (refinable pipe) q
   \<and> stdout ((streaming_iteration (Some pipe) ^^ length q) st)
       = stdout st @ streaming_errors pipe q"
proof (induction q arbitrary: st)
  case Nil
  then show ?case by (simp add: streaming_errors_def)
next
  case (Cons c q)
  let ?st1 = "streaming_iteration (Some pipe) st"
  have q1: "audio_queue ?st1 = q" using Cons.prems by (rule streaming_iteration_pops)
  have j1: "map job_audio (refine_queue ?st1)
              = map job_audio (refine_queue st) @ filter (refinable pipe) [c]"
    using streaming_iteration_jobs[OF Cons.prems, of pipe] by simp
  have o1: "stdout ?st1 = stdout st @ streaming_errors pipe [c]"
    using Cons.prems by (rule streaming_iteration_prints)
  have unf: "(streaming_iteration (Some pipe) ^^ length (c # q)) st
               = (streaming_iteration (Some pipe) ^^ length q) ?st1"
    by (simp add: funpow_swap1)
  have e: "streaming_errors pipe [c] @ streaming_errors pipe q = streaming_errors pipe (c # q)"
    by (simp add: streaming_errors_def)
  show ?case
    unfolding unf using Cons.IH[OF q1] j1 o1 e by simp
qed

lemma refining_iteration_pops:
  "refine_queue st = j # jobs \<Longrightarrow> refine_queue (refining_iteration (Some pipe) st) = jobs"
  by (simp add: refining_iteration_def Let_def split: sum.splits)

lemma refining_iteration_entries:
  "refine_queue st = j # jobs \<Longrightarrow>
   session_transcripts (refining_iteration (Some pipe) st)
     = session_transcripts st @ refined_entries pipe [j]
   \<and> callback_log (refining_iteration (Some pipe) st)
     = callback_log st @ refined_entries pipe [j]
   \<and> stdout (refining_iteration (Some pipe) st) = stdout st @ refining_errors pipe [j]"
  by (auto simp: refining_iteration_def refined_entries_def refining_errors_def Let_def
           split: sum.splits)

lemma refining_drains:
  "refine_queue st = jobs \<Longrightarrow>
   refine_queue ((refining_iteration (Some pipe) ^^ length jobs) st) = []
   \<and> session_transcripts ((refining_iteration (Some pipe) ^^ length jobs) st)
       = session_transcripts st @ refined_entries pipe jobs
   \<and> callback_log ((refining_iteration (Some pipe) ^^ length jobs) st)
       = callback_log st @ refined_entries pipe jobs
   \<and> stdout ((refining_iteration (Some pipe) ^^ length jobs) st)
       = stdout st @ refining_errors pipe jobs"
proof (induction jobs arbitrary: st)
  case Nil
  then show ?case by (simp add: refined_entries_def refining_errors_def)
next
  case (Cons j jobs)
  let ?st1 = "refining_iteration (Some pipe) st"
  have q1: "refine_queue ?st1 = jobs" using Cons.prems by (rule refining_iteration_pops)
  note e1 = refining_iteration_entries[OF Cons.prems, of pipe]
  have unf: "(refining_iteration (Some pipe) ^^ length (j # jobs)) st
               = (refining_iteration (Some pipe) ^^ length jobs) ?st1"
    by (simp add: funpow_swap1)
  have a: "refined_entries pipe [j] @ refined_entries pipe jobs = refined_entries pipe (j # jobs)"
    by (simp add: refined_entries_def)
  have b: "refining_errors pipe [j] @ refining_errors pipe jobs = refining_errors pipe (j # jobs)"
    by (simp add: refining_errors_def)
  show ?case
    unfolding unf using Cons.IH[OF q1] e1 a b by simp
qed

text \<open>
  Claim C8. When the pipeline call of the streaming worker raises on a chunk, the iteration
  prints the error, drops the chunk and changes nothing else; the worker stays in its loop
  and, over the next iterations, takes every remaining chunk off the queue and puts the job
  of every refinable one on the refine queue. The same holds for the refining worker and a
  job on which the pipeline raises: the callback log, with the Streaming entries, and the
  session transcripts are as they were after the failed iteration, and the remaining jobs
  are refined.
\<close>

theorem engine_failure_is_not_fatal:
  "(audio_queue st = c # rest \<and> pipe c = Inl e \<longrightarrow>
      streaming_iteration (Some pipe) st
        = st\<lparr>audio_queue := rest, stdout := stdout st @ [''Streaming error: '' @ e]\<rparr>
      \<and> fst (streaming_thread (Some pipe) (replicate (Suc (length rest)) True) st) = Looping
      \<and> audio_queue (snd (streaming_thread (Some pipe) (replicate (Suc (length rest)) True) st)) = []
      \<and> map job_audio
           (refine_queue (snd (streaming_thread (Some pipe) (replicate (Suc (length rest)) True) st)))
          = map job_audio (refine_queue st) @ filter (refinable pipe) rest
      \<and> stdout (snd (streaming_thread (Some pipe) (replicate (Suc (length rest)) True) st))
          = stdout st @ [''Streaming error: '' @ e] @ streaming_errors pipe rest)
   \<and> (refine_queue st = j # jobs \<and> rpipe (job_audio j) = Inl e' \<longrightarrow>
      refining_iteration (Some rpipe) st
        = st\<lparr>refine_queue := jobs, stdout := stdout st @ [''Refining error: '' @ e']\<rparr>
      \<and> callback_log (refining_iteration (Some rpipe) st) = callback_log st
      \<and> session_transcripts (refining_iteration (Some rpipe) st) = session_transcripts st
      \<and> fst (refining_thread (Some rpipe) (replicate (Suc (length jobs)) True) st) = Looping
      \<and> refine_queue (snd (refining_thread (Some rpipe) (replicate (Suc (length jobs)) True) st)) = []
      \<and> session_transcripts
           (snd (refining_thread (Some rpipe) (replicate (Suc (length jobs)) True) st))
          = session_transcripts st @ refined_entries rpipe jobs
      \<and> callback_log (snd (refining_thread (Some rpipe) (replicate (Suc (length jobs)) True) st))
          = callback_log st @ refined_entries rpipe jobs
      \<and> stdout (snd (refining_thread (Some rpipe) (replicate (Suc (length jobs)) True) st))
          = stdout st @ [''Refining error: '' @ e'] @ refining_errors rpipe jobs)"
proof (intro conjI impI)
  assume a: "audio_queue st = c # rest \<and> pipe c = Inl e"
  then have q: "audio_queue st = c # rest" and f: "pipe c = Inl e" by simp_all
  show "streaming_iteration (Some pipe) st
        = st\<lparr>audio_queue := rest, stdout := stdout st @ [''Streaming error: '' @ e]\<rparr>"
    using q f by (rule streaming_failure_step)
  have run: "streaming_thread (Some pipe) (replicate (Suc (length rest)) True) st
          = (Looping, (streaming_iteration (Some pipe) ^^ length (c # rest)) st)"
    using streaming_thread_running[of "Some pipe" "Suc (length rest)" st] by simp
  note d = streaming_drains[OF q, of pipe]
  have nr: "\<not> refinable pipe c" using f by (simp add: refinable_def)
  have er: "streaming_errors pipe (c # rest) = [''Streaming error: '' @ e] @ streaming_errors pipe rest"
    using f by (simp add: streaming_errors_def)
  show "fst (streaming_thread (Some pipe) (replicate (Suc (length rest)) True) st) = Looping"
    unfolding run by simp
  show "audio_queue (snd (streaming_thread (Some pipe) (replicate (Suc (length rest)) True) st)) = []"
    unfolding run using d by simp
  show "map job_audio
           (refine_queue (snd (streaming_thread (Some pipe) (replicate (Suc (length rest)) True) st)))
          = map job_audio (refine_queue st) @ filter (refinable pipe) rest"
    unfolding run using d nr by simp
  show "stdout (snd (streaming_thread (Some pipe) (replicate (Suc (length rest)) True) st))
          = stdout st @ [''Streaming error: '' @ e] @ streaming_errors pipe rest"
    unfolding run using d er by simp
next
  assume a: "refine_queue st = j # jobs \<and> rpipe (job_audio j) = Inl e'"
  then have q: "refine_queue st = j # jobs" and f: "rpipe (job_audio j) = Inl e'" by simp_all
  show s: "refining_iteration (Some rpipe) st
        = st\<lparr>refine_queue := jobs, stdout := stdout st @ [''Refining error: '' @ e']\<rparr>"
    using q f by (rule refining_failure_step)
  show "callback_log (refining_iteration (Some rpipe) st) = callback_log st"
    unfolding s by simp
  show "session_transcripts (refining_iteration (Some rpipe) st) = session_transcripts st"
    unfolding s by simp
  have run: "refining_thread (Some rpipe) (replicate (Suc (length jobs)) True) st
          = (Looping, (refining_iteration (Some rpipe) ^^ length (j # jobs)) st)"
    using refining_thread_running[of "Some rpipe" "Suc (length jobs)" st] by simp
  note d = refining_drains[OF q, of rpipe]
  have en: "refined_entries rpipe (j # jobs) = refined_entries rpipe jobs"
    using f by (simp add: refined_entries_def)
  have er: "refining_errors rpipe (j # jobs) = [''Refining error: '' @ e'] @ refining_errors rpipe jobs"
    using f by (simp add: refining_errors_def)
  show "fst (refining_thread (Some rpipe) (replicate (Suc (length jobs)) True) st) = Looping"
    unfolding run by simp
  show "refine_queue (snd (refining_thread (Some rpipe) (replicate (Suc (length jobs)) True) st)) = []"
    unfolding run using d by simp
  show "session_transcripts
           (snd (refining_thread (Some rpipe) (replicate (Suc (length jobs)) True) st))
          = session_transcripts st @ refined_entries rpipe jobs"
    unfolding run using d en by simp
  show "callback_log (snd (refining_thread (Some rpipe) (replicate (Suc (length jobs)) True) st))
          = callback_log st @ refined_entries rpipe jobs"
    unfolding run using d en by simp
  show "stdout (snd (refining_thread (Some rpipe) (replicate (Suc (length jobs)) True) st))
          = stdout st @ [''Refining error: '' @ e'] @ refining_errors rpipe jobs"
    unfolding run using d er by simp
qed

theorem engine_failure_is_not_fatal_witness:
  "fst (streaming_thread (Some (\<lambda>c::nat. if c = 0 then Inl ''boom'' else Inr ''This is chunk two. ''))
         (replicate 2 True) ((engine_init ''s.txt'')\<lparr>audio_queue := [0, 1]\<rparr>)) = Looping
   \<and> audio_queue
        (snd (streaming_thread (Some (\<lambda>c::nat. if c = 0 then Inl ''boom'' else Inr ''This is chunk two. ''))
               (replicate 2 True) ((engine_init ''s.txt'')\<lparr>audio_queue := [0, 1]\<rparr>))) = []
   \<and> map job_audio (refine_queue
        (snd (streaming_thread (Some (\<lambda>c::nat. if c = 0 then Inl ''boom'' else Inr ''This is chunk two. ''))
               (replicate 2 True) ((engine_init ''s.txt'')\<lparr>audio_queue := [0, 1]\<rparr>)))) = [1]
   \<and> stdout
        (snd (streaming_thread (Some (\<lambda>c::nat. if c = 0 then Inl ''boom'' else Inr ''This is chunk two. ''))
               (replicate 2 True) ((engine_init ''s.txt'')\<lparr>audio_queue := [0, 1]\<rparr>)))
       = [''Streaming error: boom'']
   \<and> session_transcripts
        (snd (refining_thread (Some (\<lambda>c::nat. if c = 0 then Inl ''boom'' else Inr ''This is chunk two. ''))
               (replicate 2 True)
               ((engine_init ''s.txt'')\<lparr>refine_queue := [\<lparr>job_id = 0, job_audio = 0\<rparr>,
                                                          \<lparr>job_id = 1, job_audio = 1\<rparr>],
                  callback_log := [\<lparr>entry_id = 0, entry_text = ''This is chunk one.'',
                                     entry_status = ''Streaming''\<rparr>]\<rparr>)))
       = [\<lparr>entry_id = 1, entry_text = ''This is chunk two.'', entry_status = ''Refined''\<rparr>]
   \<and> callback_log
        (snd (refining_thread (Some (\<lambda>c::nat. if c = 0 then Inl ''boom'' else Inr ''This is chunk two. ''))
               (replicate 2 True)
               ((engine_init ''s.txt'')\<lparr>refine_queue := [\<lparr>job_id = 0, job_audio = 0\<rparr>,
                                                          \<lparr>job_id = 1, job_audio = 1\<rparr>],
                  callback_log := [\<lparr>entry_id = 0, entry_text = ''This is chunk one.'',
                                     entry_status = ''Streaming''\<rparr>]\<rparr>)))
       = [\<lparr>entry_id = 0, entry_text = ''This is chunk one.'', entry_status = ''Streaming''\<rparr>,
          \<lparr>entry_id = 1, entry_text = ''This is chunk two.'', entry_status = ''Refined''\<rparr>]"
proof -
  let ?pipe = "\<lambda>c::nat. if c = 0 then Inl ''boom'' else (Inr ''This is chunk two. '' :: string + string)"
  let ?st = "(engine_init ''s.txt'')\<lparr>audio_queue := [0::nat, 1]\<rparr>"
  let ?st2 = "(engine_init ''s.txt'')\<lparr>refine_queue := [\<lparr>job_id = 0, job_audio = 0::nat\<rparr>,
                                                          \<lparr>job_id = 1, job_audio = 1\<rparr>],
                  callback_log := [\<lparr>entry_id = 0, entry_text = ''This is chunk one.'',
                                     entry_status = ''Streaming''\<rparr>]\<rparr>"
  have q: "audio_queue ?st = 0 # [1] \<and> ?pipe 0 = Inl ''boom''"
    by (simp add: engine_init_def)
  have q2: "refine_queue ?st2 = \<lparr>job_id = 0, job_audio = 0\<rparr> # [\<lparr>job_id = 1, job_audio = 1\<rparr>]
     \<and> ?pipe (job_audio \<lparr>job_id = 0, job_audio = 0::nat\<rparr>) = Inl ''boom''"
    by (simp add: engine_init_def)
  have s: "py_strip ''This is chunk two. '' = ''This is chunk two.''"
    by (simp add: py_strip_def py_isspace_def)
  have r: "filter (refinable ?pipe) [1] = [1]" "streaming_errors ?pipe [1] = []"
    "refined_entries ?pipe [\<lparr>job_id = 1, job_audio = 1\<rparr>]
       = [\<lparr>entry_id = 1, entry_text = ''This is chunk two.'', entry_status = ''Refined''\<rparr>]"
    by (simp_all add: refinable_def streaming_errors_def refined_entries_def s)
  have i: "refine_queue ?st = []" "stdout ?st = []" "session_transcripts ?st2 = []"
    "callback_log ?st2 = [\<lparr>entry_id = 0, entry_text = ''This is chunk one.'',
                                     entry_status = ''Streaming''\<rparr>]"
    by (simp_all add: engine_init_def)
  have l: "replicate (Suc (length [1::nat])) True = replicate 2 True"
    "replicate (Suc (length [\<lparr>job_id = 1, job_audio = 1::nat\<rparr>])) True = replicate 2 True"
    by (simp_all add: numeral_2_eq_2)
  from engine_failure_is_not_fatal[where st = ?st and c = 0 and rest = "[1]" and pipe = ?pipe
      and e = "''boom''"] q
  have a: "fst (streaming_thread (Some ?pipe) (replicate (Suc (length [1::nat])) True) ?st) = Looping
      \<and> audio_queue (snd (streaming_thread (Some ?pipe) (replicate (Suc (length [1::nat])) True) ?st)) = []
      \<and> map job_audio
           (refine_queue (snd (streaming_thread (Some ?pipe) (replicate (Suc (length [1::nat])) True) ?st)))
          = map job_audio (refine_queue ?st) @ filter (refinable ?pipe) [1]
      \<and> stdout (snd (streaming_thread (Some ?pipe) (replicate (Suc (length [1::nat])) True) ?st))
          = stdout ?st @ [''Streaming error: '' @ ''boom''] @ streaming_errors ?pipe [1]"
    by blast
  from engine_failure_is_not_fatal[where st = ?st2 and j = "\<lparr>job_id = 0, job_audio = 0\<rparr>"
      and jobs = "[\<lparr>job_id = 1, job_audio = 1\<rparr>]" and rpipe = ?pipe and e' = "''boom''"] q2
  have b: "session_transcripts
           (snd (refining_thread (Some ?pipe)
              (replicate (Suc (length [\<lparr>job_id = 1, job_audio = 1::nat\<rparr>])) True) ?st2))
          = session_transcripts ?st2 @ refined_entries ?pipe [\<lparr>job_id = 1, job_audio = 1\<rparr>]
      \<and> callback_log (snd (refining_thread (Some ?pipe)
              (replicate (Suc (length [\<lparr>job_id = 1, job_audio = 1::nat\<rparr>])) True) ?st2))
          = callback_log ?st2 @ refined_entries ?pipe [\<lparr>job_id = 1, job_audio = 1\<rparr>]"
    by blast
  show ?thesis
    using a b unfolding l r i by simp
qed

section \<open>Refine jobs and entry ids\<close>

text \<open>
  A chunk whose stripped transcript is \<open>Ok\<close> (two characters) is taken from the audio
  queue and puts no job on the refine queue: the statement of claim C2 fails there.
\<close>

theorem short_transcript_enqueues_no_job:
  "refine_queue (streaming_iteration (Some (\<lambda>c::nat. Inr ''Ok''))
                   ((engine_init ''s.txt'')\<lparr>audio_queue := [0]\<rparr>)) = []
   \<and> audio_queue (streaming_iteration (Some (\<lambda>c::nat. Inr ''Ok''))
                   ((engine_init ''s.txt'')\<lparr>audio_queue := [0]\<rparr>)) = []"
  by (simp add: streaming_iteration_def engine_init_def feed_def py_strip_def py_isspace_def)

lemma te_dead_stays: "\<not> te_streaming_alive te \<Longrightarrow> (te_streaming_iteration p ^^ n) te = te"
  by (induction n) (simp_all add: te_streaming_iteration_def)

lemma te_streaming_step:
  "te_streaming_alive te \<Longrightarrow> te_audio_queue te = c # rest \<Longrightarrow> pipe c = Inr result_text \<Longrightarrow>
   te_streaming_iteration (Some pipe) te
     = te\<lparr>te_audio_queue := rest,
          te_callback_log := te_callback_log te @
            [\<lparr>entry_id = te_chunk_id te, entry_text = result_text, entry_status = ''Streaming''\<rparr>],
          te_refine_queue := te_refine_queue te @
            [\<lparr>te_job_id = te_chunk_id te, te_job_audio = c, te_job_text = result_text\<rparr>],
          te_chunk_id := te_chunk_id te + 1\<rparr>"
  by (simp add: te_streaming_iteration_def)

lemma te_streaming_jobs:
  "te_streaming_alive te \<Longrightarrow> te_audio_queue te = q \<Longrightarrow>
   map te_job_audio (te_refine_queue ((te_streaming_iteration (Some pipe) ^^ length q) te))
     = map te_job_audio (te_refine_queue te) @ takeWhile (\<lambda>c. \<not> isl (pipe c)) q"
proof (induction q arbitrary: te)
  case Nil
  then show ?case by simp
next
  case (Cons c q)
  have unf: "(te_streaming_iteration (Some pipe) ^^ length (c # q)) te
               = (te_streaming_iteration (Some pipe) ^^ length q) (te_streaming_iteration (Some pipe) te)"
    by (simp add: funpow_swap1)
  show ?case
  proof (cases "pipe c")
    case (Inl e)
    have d: "\<not> te_streaming_alive (te_streaming_iteration (Some pipe) te)"
      and j: "te_refine_queue (te_streaming_iteration (Some pipe) te) = te_refine_queue te"
      using Cons.prems Inl by (simp_all add: te_streaming_iteration_def)
    show ?thesis unfolding unf te_dead_stays[OF d] using j Inl by simp
  next
    case (Inr t)
    have s: "te_streaming_iteration (Some pipe) te
     = te\<lparr>te_audio_queue := q,
          te_callback_log := te_callback_log te @
            [\<lparr>entry_id = te_chunk_id te, entry_text = t, entry_status = ''Streaming''\<rparr>],
          te_refine_queue := te_refine_queue te @
            [\<lparr>te_job_id = te_chunk_id te, te_job_audio = c, te_job_text = t\<rparr>],
          te_chunk_id := te_chunk_id te + 1\<rparr>"
      using Cons.prems Inr by (simp add: te_streaming_step)
    have a: "te_streaming_alive (te_streaming_iteration (Some pipe) te)"
      and q: "te_audio_queue (te_streaming_iteration (Some pipe) te) = q"
      and j: "map te_job_audio (te_refine_queue (te_streaming_iteration (Some pipe) te))
               = map te_job_audio (te_refine_queue te) @ [c]"
      unfolding s using Cons.prems(1) by simp_all
    show ?thesis unfolding unf using Cons.IH[OF a q] j Inr by simp
  qed
qed

text \<open>
  Claim C2, as amended. In engine.py a chunk the streaming pipeline transcribes is taken off
  the audio queue and puts exactly one job on the refine queue when its stripped transcript
  has more than two characters, whether or not a sentence was completed, and none
  otherwise; the job carries the chunk and the value of the id counter after the iteration,
  and no draft text. Over a whole queue the jobs are those of the refinable chunks, in the
  order of the chunks, each once: no chunk is refined twice. In transcription_engine.py
  every transcribed chunk is taken off the queue and puts exactly one job on the refine
  queue, with the chunk and the draft text; over a whole queue the jobs are those of the
  chunks before the first one on which the pipeline raises.
\<close>

theorem one_refine_job_per_transcribed_chunk:
  "(audio_queue st = c # rest \<and> pipe c = Inr result_text \<longrightarrow>
      audio_queue (streaming_iteration (Some pipe) st) = rest
      \<and> refine_queue (streaming_iteration (Some pipe) st)
        = refine_queue st @
            (if 2 < length (py_strip result_text)
             then [\<lparr>job_id = chunk_id (streaming_iteration (Some pipe) st), job_audio = c\<rparr>]
             else []))
   \<and> (audio_queue st = q \<longrightarrow>
      audio_queue (snd (streaming_thread (Some pipe) (replicate (length q) True) st)) = []
      \<and> map job_audio
           (refine_queue (snd (streaming_thread (Some pipe) (replicate (length q) True) st)))
         = map job_audio (refine_queue st) @ filter (refinable pipe) q)
   \<and> (te_streaming_alive te \<and> te_audio_queue te = c # rest \<and> pipe c = Inr result_text \<longrightarrow>
      te_audio_queue (te_streaming_iteration (Some pipe) te) = rest
      \<and> te_refine_queue (te_streaming_iteration (Some pipe) te)
        = te_refine_queue te @
            [\<lparr>te_job_id = te_chunk_id te, te_job_audio = c, te_job_text = result_text\<rparr>])
   \<and> (te_streaming_alive te \<and> te_audio_queue te = q \<longrightarrow>
      map te_job_audio
        (te_refine_queue ((te_streaming_iteration (Some pipe) ^^ length q) te))
        = map te_job_audio (te_refine_queue te) @ takeWhile (\<lambda>c. \<not> isl (pipe c)) q)"
proof (intro conjI impI)
  assume a: "audio_queue st = c # rest \<and> pipe c = Inr result_text"
  then show "audio_queue (streaming_iteration (Some pipe) st) = rest"
    by (simp add: streaming_iteration_pops)
  have "refinable pipe c = (2 < length (py_strip result_text))"
    using a by (simp add: refinable_def)
  then show "refine_queue (streaming_iteration (Some pipe) st)
        = refine_queue st @
            (if 2 < length (py_strip result_text)
             then [\<lparr>job_id = chunk_id (streaming_iteration (Some pipe) st), job_audio = c\<rparr>]
             else [])"
    using a streaming_iteration_jobs[of st c rest pipe] by simp
next
  assume q: "audio_queue st = q"
  have run: "streaming_thread (Some pipe) (replicate (length q) True) st
          = (Looping, (streaming_iteration (Some pipe) ^^ length q) st)"
    by (rule streaming_thread_running)
  note d = streaming_drains[OF q, of pipe]
  show "audio_queue (snd (streaming_thread (Some pipe) (replicate (length q) True) st)) = []"
    unfolding run using d by simp
  show "map job_audio
           (refine_queue (snd (streaming_thread (Some pipe) (replicate (length q) True) st)))
         = map job_audio (refine_queue st) @ filter (refinable pipe) q"
    unfolding run using d by simp
next
  assume a: "te_streaming_alive te \<and> te_audio_queue te = c # rest \<and> pipe c = Inr result_text"
  then have s: "te_streaming_iteration (Some pipe) te
     = te\<lparr>te_audio_queue := rest,
          te_callback_log := te_callback_log te @
            [\<lparr>entry_id = te_chunk_id te, entry_text = result_text, entry_status = ''Streaming''\<rparr>],
          te_refine_queue := te_refine_queue te @
            [\<lparr>te_job_id = te_chunk_id te, te_job_audio = c, te_job_text = result_text\<rparr>],
          te_chunk_id := te_chunk_id te + 1\<rparr>"
    by (simp add: te_streaming_step)
  show "te_audio_queue (te_streaming_iteration (Some pipe) te) = rest"
    unfolding s by simp
  show "te_refine_queue (te_streaming_iteration (Some pipe) te)
        = te_refine_queue te @
            [\<lparr>te_job_id = te_chunk_id te, te_job_audio = c, te_job_text = result_text\<rparr>]"
    unfolding s by simp
next
  assume "te_streaming_alive te \<and> te_audio_queue te = q"
  then show "map te_job_audio
        (te_refine_queue ((te_streaming_iteration (Some pipe) ^^ length q) te))
        = map te_job_audio (te_refine_queue te) @ takeWhile (\<lambda>c. \<not> isl (pipe c)) q"
    by (simp add: te_streaming_jobs)
qed

theorem one_refine_job_per_transcribed_chunk_witness:
  "map job_audio (refine_queue
      (snd (streaming_thread
              (Some (\<lambda>c::nat. if c = 1 then Inr ''Ok'' else Inr ''This is not finished''))
              (replicate 3 True) ((engine_init ''s.txt'')\<lparr>audio_queue := [0, 1, 2]\<rparr>))))
     = [0, 2]
   \<and> audio_queue
      (snd (streaming_thread
              (Some (\<lambda>c::nat. if c = 1 then Inr ''Ok'' else Inr ''This is not finished''))
              (replicate 3 True) ((engine_init ''s.txt'')\<lparr>audio_queue := [0, 1, 2]\<rparr>))) = []
   \<and> refine_queue (streaming_iteration
        (Some (\<lambda>c::nat. if c = 1 then Inr ''Ok'' else Inr ''This is not finished''))
        ((engine_init ''s.txt'')\<lparr>audio_queue := [0, 1, 2]\<rparr>))
     = [\<lparr>job_id = 0, job_audio = 0\<rparr>]
   \<and> callback_log (streaming_iteration
        (Some (\<lambda>c::nat. if c = 1 then Inr ''Ok'' else Inr ''This is not finished''))
        ((engine_init ''s.txt'')\<lparr>audio_queue := [0, 1, 2]\<rparr>)) = []
   \<and> te_refine_queue (te_streaming_iteration
        (Some (\<lambda>c::nat. if c = 1 then Inr ''Ok'' else Inr ''This is not finished''))
        (te_init\<lparr>te_audio_queue := [0, 1, 2]\<rparr>))
     = [\<lparr>te_job_id = 0, te_job_audio = 0, te_job_text = ''This is not finished''\<rparr>]
   \<and> map te_job_audio (te_refine_queue
        ((te_streaming_iteration
            (Some (\<lambda>c::nat. if c = 1 then Inr ''Ok'' else Inr ''This is not finished'')) ^^ 3)
           (te_init\<lparr>te_audio_queue := [0, 1, 2]\<rparr>)))
     = [0, 1, 2]"
proof -
  let ?pipe = "\<lambda>c::nat. if c = 1 then Inr ''Ok'' else (Inr ''This is not finished'' :: string + string)"
  let ?st = "(engine_init ''s.txt'')\<lparr>audio_queue := [0::nat, 1, 2]\<rparr>"
  let ?te = "te_init\<lparr>te_audio_queue := [0::nat, 1, 2]\<rparr>"
  have a: "audio_queue ?st = 0 # [1, 2] \<and> ?pipe 0 = Inr ''This is not finished''"
    and a': "audio_queue ?st = [0, 1, 2]"
    by (simp_all add: engine_init_def)
  have b: "te_streaming_alive ?te \<and> te_audio_queue ?te = 0 # [1, 2] \<and> ?pipe 0 = Inr ''This is not finished''"
    and b': "te_streaming_alive ?te \<and> te_audio_queue ?te = [0, 1, 2]"
    by (simp_all add: te_init_def)
  have l: "py_strip ''This is not finished'' = ''This is not finished''" "py_strip ''Ok'' = ''Ok''"
    by (simp_all add: py_strip_def py_isspace_def)
  have f: "filter (refinable ?pipe) [0, 1, 2] = [0, 2]"
    by (simp add: refinable_def l)
  have t: "takeWhile (\<lambda>c. \<not> isl (?pipe c)) [0, 1, 2] = [0, 1, 2]" by simp
  have cid: "chunk_id (streaming_iteration (Some ?pipe) ?st) = 0" by code_simp
  have cb: "callback_log (streaming_iteration (Some ?pipe) ?st) = []" by code_simp
  have q0: "refine_queue ?st = []" "te_refine_queue ?te = []" "te_chunk_id ?te = 0"
    by (simp_all add: engine_init_def te_init_def)
  have n: "length [0::nat, 1, 2] = 3" by simp
  note inst = one_refine_job_per_transcribed_chunk[where st = ?st and c = 0 and rest = "[1, 2]"
      and pipe = ?pipe and result_text = "''This is not finished''" and te = ?te and q = "[0, 1, 2]"]
  from inst a have 1: "refine_queue (streaming_iteration (Some ?pipe) ?st)
        = refine_queue ?st @
            (if 2 < length (py_strip ''This is not finished'')
             then [\<lparr>job_id = chunk_id (streaming_iteration (Some ?pipe) ?st), job_audio = 0\<rparr>]
             else [])"
    by blast
  from inst a' have 2: "audio_queue (snd (streaming_thread (Some ?pipe) (replicate (length [0::nat, 1, 2]) True) ?st)) = []
      \<and> map job_audio
           (refine_queue (snd (streaming_thread (Some ?pipe) (replicate (length [0::nat, 1, 2]) True) ?st)))
         = map job_audio (refine_queue ?st) @ filter (refinable ?pipe) [0, 1, 2]"
    by blast
  from inst b have 3: "te_refine_queue (te_streaming_iteration (Some ?pipe) ?te)
        = te_refine_queue ?te @
            [\<lparr>te_job_id = te_chunk_id ?te, te_job_audio = 0, te_job_text = ''This is not finished''\<rparr>]"
    by blast
  from inst b' have 4: "map te_job_audio
        (te_refine_queue ((te_streaming_iteration (Some ?pipe) ^^ length [0::nat, 1, 2]) ?te))
        = map te_job_audio (te_refine_queue ?te) @ takeWhile (\<lambda>c. \<not> isl (?pipe c)) [0, 1, 2]"
    by blast
  show ?thesis
    using 1 2 3 4 cb unfolding n f t cid q0 l by simp
qed

text \<open>
  In every run the ids of the Streaming entries, in the order of the calls, are
  \<open>0, 1, ..., chunk_id - 1\<close>: strictly increasing, each once.
\<close>

lemma emit_sentences_ids:
  "streaming_ids cb = [0..<cid] \<Longrightarrow>
   streaming_ids (snd (emit_sentences ss (cid, cb))) = [0..<fst (emit_sentences ss (cid, cb))]"
proof (induction ss arbitrary: cid cb)
  case Nil
  then show ?case by simp
next
  case (Cons s ss)
  show ?case
  proof (cases "py_strip s = []")
    case True
    then show ?thesis using Cons.IH[OF Cons.prems] by simp
  next
    case False
    have "streaming_ids (cb @ [\<lparr>entry_id = cid, entry_text = s, entry_status = ''Streaming''\<rparr>])
            = [0..<cid + 1]"
      using Cons.prems by (simp add: streaming_ids_def)
    then show ?thesis using False Cons.IH by simp
  qed
qed

lemma streaming_iteration_ids:
  assumes "streaming_ids (callback_log st) = [0..<chunk_id st]"
  shows "streaming_ids (callback_log (streaming_iteration p st)) = [0..<chunk_id (streaming_iteration p st)]"
proof -
  have e: "\<And>ss cid cb. emit_sentences ss (chunk_id st, callback_log st) = (cid, cb)
            \<Longrightarrow> streaming_ids cb = [0..<cid]"
    using emit_sentences_ids[OF assms] by (metis fst_conv snd_conv)
  show ?thesis
    using assms e
    by (auto simp: streaming_iteration_def split: option.splits list.splits sum.splits prod.splits)
qed

lemma refining_iteration_ids:
  "streaming_ids (callback_log (refining_iteration p st)) = streaming_ids (callback_log st)
   \<and> chunk_id (refining_iteration p st) = chunk_id st"
  by (simp add: refining_iteration_def Let_def streaming_ids_def
           split: option.splits list.splits sum.splits)

lemma engine_run_ids:
  "streaming_ids (callback_log st) = [0..<chunk_id st] \<Longrightarrow>
   streaming_ids (callback_log (engine_run steps st)) = [0..<chunk_id (engine_run steps st)]"
  unfolding engine_run_def
proof (induction steps arbitrary: st)
  case Nil
  then show ?case by simp
next
  case (Cons s steps)
  have "streaming_ids (callback_log (engine_step s st)) = [0..<chunk_id (engine_step s st)]"
  proof (cases s)
    case (Capture c)
    then show ?thesis using Cons.prems by (simp add: capture_def)
  next
    case (Stream p)
    then show ?thesis using streaming_iteration_ids[OF Cons.prems] by simp
  next
    case (Refine p)
    then show ?thesis using Cons.prems refining_iteration_ids[of p st] by simp
  qed
  then show ?case using Cons.IH by simp
qed

lemma streaming_ids_of_run:
  "streaming_ids (callback_log (engine_run steps (engine_init path)))
     = [0..<chunk_id (engine_run steps (engine_init path))]"
  by (rule engine_run_ids) (simp add: engine_init_def streaming_ids_def)

text \<open>
  The job the streaming thread of engine.py enqueues carries the counter after the loop over
  the sentences: the id of the next sentence, which no Streaming entry has yet.
\<close>

lemma enqueued_job_id_is_fresh:
  assumes "streaming_ids (callback_log st) = [0..<chunk_id st]"
    and "audio_queue st = c # rest" and "pipe c = Inr result_text"
    and "2 < length (py_strip result_text)"
  shows "refine_queue (streaming_iteration (Some pipe) st)
           = refine_queue st @ [\<lparr>job_id = chunk_id (streaming_iteration (Some pipe) st), job_audio = c\<rparr>]
         \<and> chunk_id (streaming_iteration (Some pipe) st)
             \<notin> set (streaming_ids (callback_log (streaming_iteration (Some pipe) st)))"
proof -
  have "streaming_ids (callback_log (streaming_iteration (Some pipe) st))
          = [0..<chunk_id (streaming_iteration (Some pipe) st)]"
    using assms(1) by (rule streaming_iteration_ids)
  then have "chunk_id (streaming_iteration (Some pipe) st)
             \<notin> set (streaming_ids (callback_log (streaming_iteration (Some pipe) st)))"
    by simp
  moreover have "refine_queue (streaming_iteration (Some pipe) st)
           = refine_queue st @ [\<lparr>job_id = chunk_id (streaming_iteration (Some pipe) st), job_audio = c\<rparr>]"
    using assms(2-4)
    by (simp add: streaming_iteration_def feed_Some_iff split: prod.splits)
  ultimately show ?thesis by simp
qed

text \<open>
  Claim C1. The claim asks that a refine job carries the id of a Streaming entry that exists
  when the job is enqueued. On one chunk transcribed as \<open>This is chunk one.\<close> engine.py
  emits the Streaming entry with id 0 and enqueues the job with id 1, while
  transcription_engine.py emits the entry with id 0 and enqueues the job with id 0.
\<close>

theorem refine_job_id_is_next_sentence_id:
  "callback_log (streaming_iteration (Some (\<lambda>c::nat. Inr ''This is chunk one.''))
                   ((engine_init ''s.txt'')\<lparr>audio_queue := [0]\<rparr>))
     = [\<lparr>entry_id = 0, entry_text = ''This is chunk one.'', entry_status = ''Streaming''\<rparr>]
   \<and> refine_queue (streaming_iteration (Some (\<lambda>c::nat. Inr ''This is chunk one.''))
                   ((engine_init ''s.txt'')\<lparr>audio_queue := [0]\<rparr>))
     = [\<lparr>job_id = 1, job_audio = 0\<rparr>]
   \<and> te_callback_log (te_streaming_iteration (Some (\<lambda>c::nat. Inr ''This is chunk one.''))
                   (te_init\<lparr>te_audio_queue := [0]\<rparr>))
     = [\<lparr>entry_id = 0, entry_text = ''This is chunk one.'', entry_status = ''Streaming''\<rparr>]
   \<and> te_refine_queue (te_streaming_iteration (Some (\<lambda>c::nat. Inr ''This is chunk one.''))
                   (te_init\<lparr>te_audio_queue := [0]\<rparr>))
     = [\<lparr>te_job_id = 0, te_job_audio = 0, te_job_text = ''This is chunk one.''\<rparr>]"
proof (intro conjI)
  show "callback_log (streaming_iteration (Some (\<lambda>c::nat. Inr ''This is chunk one.''))
                   ((engine_init ''s.txt'')\<lparr>audio_queue := [0]\<rparr>))
     = [\<lparr>entry_id = 0, entry_text = ''This is chunk one.'', entry_status = ''Streaming''\<rparr>]"
    by code_simp
  show "refine_queue (streaming_iteration (Some (\<lambda>c::nat. Inr ''This is chunk one.''))
                   ((engine_init ''s.txt'')\<lparr>audio_queue := [0]\<rparr>))
     = [\<lparr>job_id = 1, job_audio = 0\<rparr>]"
    by code_simp
  show "te_callback_log (te_streaming_iteration (Some (\<lambda>c::nat. Inr ''This is chunk one.''))
                   (te_init\<lparr>te_audio_queue := [0]\<rparr>))
     = [\<lparr>entry_id = 0, entry_text = ''This is chunk one.'', entry_status = ''Streaming''\<rparr>]"
    by (simp add: te_streaming_iteration_def te_init_def)
  show "te_refine_queue (te_streaming_iteration (Some (\<lambda>c::nat. Inr ''This is chunk one.''))
                   (te_init\<lparr>te_audio_queue := [0]\<rparr>))
     = [\<lparr>te_job_id = 0, te_job_audio = 0, te_job_text = ''This is chunk one.''\<rparr>]"
    by (simp add: te_streaming_iteration_def te_init_def)
qed


section \<open>Snapshots of the session\<close>

lemma save_session_fields:
  "session_transcripts (fst (save_session io now (st, fs))) = session_transcripts st"
  "session_file (fst (save_session io now (st, fs))) = session_file st"
  by (simp_all add: save_session_def Let_def split: io_outcome.splits)

lemma save_session_ok:
  "snd (save_session IoOk now (st, fs))
     = fs(session_file st \<mapsto> concat (session_writes now (session_transcripts st)))"
  by (simp add: save_session_def Let_def)

text \<open>
  Two snapshots of the same session taken at different clock readings differ: the statement
  of claim C7 fails on the header line.
\<close>

theorem snapshots_differ_in_timestamp:
  "snd (save_session IoOk ''2024-01-01 10:00:01''
          (save_session IoOk ''2024-01-01 10:00:00'' (engine_init ''s.txt'', Map.empty))) ''s.txt''
   \<noteq> snd (save_session IoOk ''2024-01-01 10:00:00'' (engine_init ''s.txt'', Map.empty)) ''s.txt''"
  by (simp add: save_session_def Let_def engine_init_def session_writes_def)

text \<open>
  Claim C7, as amended. Two successful snapshots with no change of the session in between
  write the same file when the clock reading is the same; at different readings the second
  file is the session written under the second reading, and the two sequences of writes
  differ in the first line (the header with the time) only.
\<close>

theorem snapshot_idempotent_at_one_clock_reading:
  "snd (save_session IoOk now (save_session IoOk now (st, fs))) = snd (save_session IoOk now (st, fs))
   \<and> snd (save_session IoOk now2 (save_session IoOk now1 (st, fs))) (session_file st)
       = Some (concat (session_writes now2 (session_transcripts st)))
   \<and> tl (session_writes now1 (session_transcripts st)) = tl (session_writes now2 (session_transcripts st))"
proof (intro conjI)
  obtain st' fs' where w: "save_session IoOk now (st, fs) = (st', fs')"
    by (cases "save_session IoOk now (st, fs)")
  have f: "session_transcripts st' = session_transcripts st" "session_file st' = session_file st"
    using save_session_fields[of IoOk now st fs] w by simp_all
  have fs': "fs' = fs(session_file st \<mapsto> concat (session_writes now (session_transcripts st)))"
    using save_session_ok[of now st fs] w by simp
  show "snd (save_session IoOk now (save_session IoOk now (st, fs))) = snd (save_session IoOk now (st, fs))"
    unfolding w by (simp add: save_session_ok f fs')
  obtain st1 fs1 where w1: "save_session IoOk now1 (st, fs) = (st1, fs1)"
    by (cases "save_session IoOk now1 (st, fs)")
  have f1: "session_transcripts st1 = session_transcripts st" "session_file st1 = session_file st"
    using save_session_fields[of IoOk now1 st fs] w1 by simp_all
  show "snd (save_session IoOk now2 (save_session IoOk now1 (st, fs))) (session_file st)
       = Some (concat (session_writes now2 (session_transcripts st)))"
    unfolding w1 by (simp add: save_session_ok f1)
  show "tl (session_writes now1 (session_transcripts st)) = tl (session_writes now2 (session_transcripts st))"
    by (simp add: session_writes_def)
qed

text \<open>
  A snapshot whose first write raises leaves the session file empty, whatever it held: the
  statement of claim C9 fails there.
\<close>

theorem failed_write_truncates_snapshot:
  "snd (save_session (WriteRaises 0 ''No space left on device'') ''2024-01-01 10:00:05''
          ((engine_init ''s.txt'')\<lparr>session_transcripts :=
              [\<lparr>entry_id = 1, entry_text = ''This is chunk one.'', entry_status = ''Refined''\<rparr>]\<rparr>,
           [''s.txt'' \<mapsto> ''old snapshot''])) ''s.txt'' = Some []
   \<and> [''s.txt'' \<mapsto> ''old snapshot''] ''s.txt'' = Some ''old snapshot''"
  by (simp add: save_session_def Let_def engine_init_def session_writes_def)

text \<open>
  Claim C9, as amended. A failed snapshot only prints the error and keeps the session
  transcripts in memory. When opening the file raises, the file system is unchanged. When
  the \<open>n\<close>-th write raises, the file holds the first \<open>n\<close> writes of the new snapshot
  and no longer its prior contents. A later successful snapshot writes the file it would
  have written had the failed attempt not happened.
\<close>

theorem failed_snapshot_keeps_session:
  "save_session (OpenRaises e) now (st, fs)
     = (st\<lparr>stdout := stdout st @ [''Error saving session: '' @ e]\<rparr>, fs)
   \<and> session_transcripts (fst (save_session io now (st, fs))) = session_transcripts st
   \<and> (n < length (session_writes now (session_transcripts st)) \<longrightarrow>
        save_session (WriteRaises n e) now (st, fs)
          = (st\<lparr>stdout := stdout st @ [''Error saving session: '' @ e]\<rparr>,
             fs(session_file st \<mapsto> concat (take n (session_writes now (session_transcripts st))))))
   \<and> snd (save_session IoOk now' (save_session io now (st, fs))) = snd (save_session IoOk now' (st, fs))"
proof (intro conjI impI)
  show "save_session (OpenRaises e) now (st, fs)
     = (st\<lparr>stdout := stdout st @ [''Error saving session: '' @ e]\<rparr>, fs)"
    by (simp add: save_session_def Let_def)
  show "session_transcripts (fst (save_session io now (st, fs))) = session_transcripts st"
    by (rule save_session_fields)
  show "save_session (WriteRaises n e) now (st, fs)
          = (st\<lparr>stdout := stdout st @ [''Error saving session: '' @ e]\<rparr>,
             fs(session_file st \<mapsto> concat (take n (session_writes now (session_transcripts st)))))"
    if "n < length (session_writes now (session_transcripts st))"
    using that by (simp add: save_session_def Let_def)
  obtain st' fs' where w: "save_session io now (st, fs) = (st', fs')"
    by (cases "save_session io now (st, fs)")
  have f: "session_transcripts st' = session_transcripts st" "session_file st' = session_file st"
    using save_session_fields[of io now st fs] w by simp_all
  have "fs' = fs \<or> (\<exists>x. fs' = fs(session_file st \<mapsto> x))"
    using w by (auto simp: save_session_def Let_def split: io_outcome.splits if_splits)
  then show "snd (save_session IoOk now' (save_session io now (st, fs))) = snd (save_session IoOk now' (st, fs))"
    unfolding w by (auto simp: save_session_ok f)
qed

theorem failed_snapshot_keeps_session_witness:
  "save_session (WriteRaises 2 ''No space left on device'') ''2024-01-01 10:00:05''
      ((engine_init ''s.txt'' :: nat engine)\<lparr>session_transcripts :=
          [\<lparr>entry_id = 1, entry_text = ''This is chunk one.'', entry_status = ''Refined''\<rparr>]\<rparr>,
       [''s.txt'' \<mapsto> ''old snapshot''])
   = ((engine_init ''s.txt'')\<lparr>session_transcripts :=
          [\<lparr>entry_id = 1, entry_text = ''This is chunk one.'', entry_status = ''Refined''\<rparr>],
        stdout := [''Error saving session: No space left on device'']\<rparr>,
      [''s.txt'' \<mapsto> concat (take 2 (session_writes ''2024-01-01 10:00:05''
          [\<lparr>entry_id = 1, entry_text = ''This is chunk one.'', entry_status = ''Refined''\<rparr>]))])
   \<and> concat (take 2 (session_writes ''2024-01-01 10:00:05''
          [\<lparr>entry_id = 1, entry_text = ''This is chunk one.'', entry_status = ''Refined''\<rparr>]))
       \<noteq> ''old snapshot''"
proof -
  let ?st = "(engine_init ''s.txt'')\<lparr>session_transcripts :=
          [\<lparr>entry_id = 1, entry_text = ''This is chunk one.'', entry_status = ''Refined''\<rparr>]\<rparr> :: nat engine"
  have n: "2 < length (session_writes ''2024-01-01 10:00:05'' (session_transcripts ?st))"
    by (simp add: session_writes_def engine_init_def)
  have "save_session (WriteRaises 2 ''No space left on device'') ''2024-01-01 10:00:05''
          (?st, [''s.txt'' \<mapsto> ''old snapshot''])
          = (?st\<lparr>stdout := stdout ?st @ [''Error saving session: '' @ ''No space left on device'']\<rparr>,
             [''s.txt'' \<mapsto> ''old snapshot''](session_file ?st \<mapsto>
                concat (take 2 (session_writes ''2024-01-01 10:00:05'' (session_transcripts ?st)))))"
    using failed_snapshot_keeps_session[where n = 2 and now = "''2024-01-01 10:00:05''" and st = ?st
        and e = "''No space left on device''" and fs = "[''s.txt'' \<mapsto> ''old snapshot'']"] n
    by blast
  moreover have "concat (take 2 (session_writes ''2024-01-01 10:00:05''
          [\<lparr>entry_id = 1, entry_text = ''This is chunk one.'', entry_status = ''Refined''\<rparr>]))
       \<noteq> ''old snapshot''"
    by (simp add: session_writes_def)
  ultimately show ?thesis
    by (simp add: engine_init_def)
qed

section \<open>Overflow of the bounded audio queue\<close>

lemma enqueue_chunk_eq:
  "enqueue_chunk maxsize c (q, out) =
     (if 0 < maxsize \<and> maxsize \<le> length q
      then (q, out @ [''Audio queue full, skipping chunk''])
      else (q @ [c], out))"
  by (simp add: enqueue_chunk_def put_nowait_def)

lemma check_memory_usage_low:
  "memory_mb \<le> 1000 \<Longrightarrow>
   lw_audio_queue (check_memory_usage memory_mb st) = lw_audio_queue st
   \<and> lw_audio_buffer (check_memory_usage memory_mb st) = lw_audio_buffer st
   \<and> last_cleanup (check_memory_usage memory_mb st) = last_cleanup st"
  by (simp add: check_memory_usage_def)

lemma check_memory_usage_cleanup:
  "last_cleanup (check_memory_usage memory_mb st) = last_cleanup st"
  by (simp add: check_memory_usage_def cleanup_memory_def)

lemma stream_chunks_short:
  "length samples < chunk_samples \<Longrightarrow> stream_chunks chunk_samples samples = []"
  by (subst stream_chunks.simps) simp

lemma stream_chunks_cut:
  "0 < chunk_samples \<Longrightarrow> chunk_samples \<le> length xs \<Longrightarrow>
   stream_chunks chunk_samples (xs @ ys)
     = take chunk_samples xs # stream_chunks chunk_samples (drop chunk_samples xs @ ys)"
  by (subst stream_chunks.simps) simp

lemma iteration_read_error:
  "audio_input_iteration chunk_samples maxsize (Inl e, current_time, memory_mb) st
     = st\<lparr>lw_stdout := lw_stdout st @ [''Audio read error: '' @ e]\<rparr>"
  by (simp add: audio_input_iteration_def)

lemma iteration_no_cleanup_due:
  assumes "length (lw_audio_buffer st) < chunk_samples"
    and "current_time - last_cleanup st \<le> cleanup_interval" and "memory_mb \<le> 1000"
  shows "last_cleanup (audio_input_iteration chunk_samples maxsize (Inr new_data, current_time, memory_mb) st)
           = last_cleanup st"
    and "length (lw_audio_buffer st @ new_data) < chunk_samples \<Longrightarrow>
         lw_audio_buffer (audio_input_iteration chunk_samples maxsize (Inr new_data, current_time, memory_mb) st)
           = lw_audio_buffer st @ new_data
         \<and> lw_audio_queue (audio_input_iteration chunk_samples maxsize (Inr new_data, current_time, memory_mb) st)
           = lw_audio_queue st"
    and "chunk_samples \<le> length (lw_audio_buffer st @ new_data) \<Longrightarrow>
         lw_audio_buffer (audio_input_iteration chunk_samples maxsize (Inr new_data, current_time, memory_mb) st)
           = drop chunk_samples (lw_audio_buffer st @ new_data)
         \<and> lw_audio_queue (audio_input_iteration chunk_samples maxsize (Inr new_data, current_time, memory_mb) st)
           = (if 0 < maxsize \<and> maxsize \<le> length (lw_audio_queue st)
              then lw_audio_queue st
              else lw_audio_queue st @ [take chunk_samples (lw_audio_buffer st @ new_data)])"
  using assms
  by (simp_all add: audio_input_iteration_def Let_def enqueue_chunk_eq check_memory_usage_low)

lemma run_queue_without_cleanup:
  assumes m: "0 < maxsize" and n: "0 < chunk_samples"
  shows "length (lw_audio_buffer st) < chunk_samples \<Longrightarrow>
   (\<forall>input\<in>set inputs. length (frame_data input) \<le> chunk_samples
       \<and> fst (snd input) - last_cleanup st \<le> cleanup_interval \<and> snd (snd input) \<le> 1000) \<Longrightarrow>
   lw_audio_queue (audio_input_run chunk_samples maxsize inputs st)
     = lw_audio_queue st @
         take (maxsize - length (lw_audio_queue st))
           (stream_chunks chunk_samples (lw_audio_buffer st @ concat (map frame_data inputs)))"
  unfolding audio_input_run_def
proof (induction inputs arbitrary: st)
  case Nil
  then show ?case by (simp add: stream_chunks_short)
next
  case (Cons input inputs)
  obtain frame current_time memory_mb where i: "input = (frame, current_time, memory_mb)"
    by (cases input)
  have t: "current_time - last_cleanup st \<le> cleanup_interval" and mm: "memory_mb \<le> 1000"
    using Cons.prems(2) i by simp_all
  let ?st1 = "audio_input_iteration chunk_samples maxsize input st"
  let ?rest = "concat (map frame_data inputs)"
  have step: "length (lw_audio_buffer ?st1) < chunk_samples
      \<and> last_cleanup ?st1 = last_cleanup st
      \<and> lw_audio_queue ?st1 @
           take (maxsize - length (lw_audio_queue ?st1))
             (stream_chunks chunk_samples (lw_audio_buffer ?st1 @ ?rest))
         = lw_audio_queue st @
           take (maxsize - length (lw_audio_queue st))
             (stream_chunks chunk_samples (lw_audio_buffer st @ frame_data input @ ?rest))"
  proof (cases frame)
    case (Inl e)
    then show ?thesis
      using i Cons.prems(1) by (simp add: iteration_read_error frame_data_def)
  next
    case (Inr new_data)
    have fd: "frame_data input = new_data" using i Inr by (simp add: frame_data_def)
    have ld: "length new_data \<le> chunk_samples" using Cons.prems(2) fd by simp
    note s = iteration_no_cleanup_due[OF Cons.prems(1) t mm, where maxsize = maxsize and new_data = new_data]
    have lc: "last_cleanup ?st1 = last_cleanup st" using s(1) i Inr by simp
    show ?thesis
    proof (cases "chunk_samples \<le> length (lw_audio_buffer st @ new_data)")
      case False
      then have "lw_audio_buffer ?st1 = lw_audio_buffer st @ new_data
         \<and> lw_audio_queue ?st1 = lw_audio_queue st"
        using s(2) i Inr by simp
      then show ?thesis using False lc fd by simp
    next
      case True
      let ?b = "lw_audio_buffer st @ new_data"
      have b1: "lw_audio_buffer ?st1 = drop chunk_samples ?b"
        and q1: "lw_audio_queue ?st1
           = (if maxsize \<le> length (lw_audio_queue st)
              then lw_audio_queue st
              else lw_audio_queue st @ [take chunk_samples ?b])"
        using s(3)[OF True] i Inr m by simp_all
      have short: "length (drop chunk_samples ?b) < chunk_samples"
        using Cons.prems(1) ld by simp
      have cut: "stream_chunks chunk_samples (?b @ ?rest)
           = take chunk_samples ?b # stream_chunks chunk_samples (drop chunk_samples ?b @ ?rest)"
        using n True by (rule stream_chunks_cut)
      show ?thesis
      proof (cases "maxsize \<le> length (lw_audio_queue st)")
        case True
        then show ?thesis using b1 q1 short lc fd by simp
      next
        case False
        then obtain k where k: "maxsize - length (lw_audio_queue st) = Suc k"
          by (cases "maxsize - length (lw_audio_queue st)") auto
        have k': "maxsize - length (lw_audio_queue st @ [take chunk_samples ?b]) = k"
          using k by simp
        have "lw_audio_queue ?st1 @
           take (maxsize - length (lw_audio_queue ?st1))
             (stream_chunks chunk_samples (lw_audio_buffer ?st1 @ ?rest))
          = (lw_audio_queue st @ [take chunk_samples ?b]) @
             take k (stream_chunks chunk_samples (drop chunk_samples ?b @ ?rest))"
          using q1 b1 False k' by simp
        also have "\<dots> = lw_audio_queue st @
           take (Suc k) (stream_chunks chunk_samples (?b @ ?rest))"
          unfolding cut by simp
        finally show ?thesis using short b1 lc fd k by simp
      qed
    qed
  qed
  then have b1: "length (lw_audio_buffer ?st1) < chunk_samples"
    and c1: "last_cleanup ?st1 = last_cleanup st"
    and e1: "lw_audio_queue ?st1 @
           take (maxsize - length (lw_audio_queue ?st1))
             (stream_chunks chunk_samples (lw_audio_buffer ?st1 @ ?rest))
         = lw_audio_queue st @
           take (maxsize - length (lw_audio_queue st))
             (stream_chunks chunk_samples (lw_audio_buffer st @ frame_data input @ ?rest))"
    by simp_all
  have rest: "\<forall>input\<in>set inputs. length (frame_data input) \<le> chunk_samples
       \<and> fst (snd input) - last_cleanup ?st1 \<le> cleanup_interval \<and> snd (snd input) \<le> 1000"
    using Cons.prems(2) c1 by simp
  have "lw_audio_queue (fold (audio_input_iteration chunk_samples maxsize) inputs ?st1)
     = lw_audio_queue ?st1 @
         take (maxsize - length (lw_audio_queue ?st1))
           (stream_chunks chunk_samples (lw_audio_buffer ?st1 @ ?rest))"
    using b1 rest by (rule Cons.IH)
  then show ?case using e1 by simp
qed

text \<open>
  With chunks of two samples, a queue of capacity 2, no consumer and no cleanup falling due,
  ten frames of one sample each give five chunks; the run leaves the chunks of the samples
  1 to 4, the two oldest, and prints three warnings: the statement of claim C5 (the two
  most recent stay) fails there.
\<close>

theorem overflow_drops_newest:
  "lw_audio_queue
     (audio_input_run 2 2
        [(Inr [1::nat], 2, 100), (Inr [2], 4, 100), (Inr [3], 6, 100), (Inr [4], 8, 100),
         (Inr [5], 10, 100), (Inr [6], 12, 100), (Inr [7], 14, 100), (Inr [8], 16, 100),
         (Inr [9], 18, 100), (Inr [10], 20, 100)] (lw_init 0))
     = [[1, 2], [3, 4]]
   \<and> lw_stdout
     (audio_input_run 2 2
        [(Inr [1::nat], 2, 100), (Inr [2], 4, 100), (Inr [3], 6, 100), (Inr [4], 8, 100),
         (Inr [5], 10, 100), (Inr [6], 12, 100), (Inr [7], 14, 100), (Inr [8], 16, 100),
         (Inr [9], 18, 100), (Inr [10], 20, 100)] (lw_init 0))
     = [''Audio queue full, skipping chunk'', ''Audio queue full, skipping chunk'',
        ''Audio queue full, skipping chunk'']"
  by (simp add: audio_input_run_def audio_input_iteration_def Let_def enqueue_chunk_eq lw_init_def
        check_memory_usage_def memory_check_interval_def cleanup_interval_def)

text \<open>
  Claim C5, as amended. The capture thread never blocks on a full queue. An iteration that
  cuts a chunk while the queue is full, with no cleanup due, prints a warning and skips the
  new chunk: the queue is as it was. A run of iterations with no consumer and no cleanup
  due (the cleanup interval not passed, the memory reading at most 1000 MB), on frames no
  longer than a chunk, keeps the queue's chunks and then the first chunks of the sample
  stream up to the capacity. An iteration at which a cleanup is due (the cleanup interval
  passed, or a memory check due with a reading above 1000 MB) leaves the queue empty.
\<close>

theorem overflow_skips_new_chunk:
  "(length (lw_audio_buffer st) \<le> chunk_samples
      \<and> chunk_samples \<le> length (lw_audio_buffer st) + length new_data
      \<and> 0 < maxsize \<and> maxsize \<le> length (lw_audio_queue st)
      \<and> current_time - last_cleanup st \<le> cleanup_interval \<and> memory_mb \<le> 1000 \<longrightarrow>
      lw_audio_queue
        (audio_input_iteration chunk_samples maxsize (Inr new_data, current_time, memory_mb) st)
        = lw_audio_queue st
      \<and> ''Audio queue full, skipping chunk''
          \<in> set (lw_stdout
                (audio_input_iteration chunk_samples maxsize (Inr new_data, current_time, memory_mb) st)))
   \<and> (0 < maxsize \<and> 0 < chunk_samples \<and> length (lw_audio_buffer st) < chunk_samples
      \<and> (\<forall>input\<in>set inputs. length (frame_data input) \<le> chunk_samples
             \<and> fst (snd input) - last_cleanup st \<le> cleanup_interval
             \<and> snd (snd input) \<le> 1000) \<longrightarrow>
      lw_audio_queue (audio_input_run chunk_samples maxsize inputs st)
        = lw_audio_queue st @
            take (maxsize - length (lw_audio_queue st))
              (stream_chunks chunk_samples
                 (lw_audio_buffer st @ concat (map frame_data inputs))))
   \<and> (current_time - last_cleanup st > cleanup_interval
        \<or> current_time - last_memory_check st > memory_check_interval \<and> memory_mb > 1000 \<longrightarrow>
      lw_audio_queue
        (audio_input_iteration chunk_samples maxsize (Inr new_data, current_time, memory_mb) st)
        = [])"
proof (intro conjI impI)
  assume a: "length (lw_audio_buffer st) \<le> chunk_samples
      \<and> chunk_samples \<le> length (lw_audio_buffer st) + length new_data
      \<and> 0 < maxsize \<and> maxsize \<le> length (lw_audio_queue st)
      \<and> current_time - last_cleanup st \<le> cleanup_interval \<and> memory_mb \<le> 1000"
  then show "lw_audio_queue
        (audio_input_iteration chunk_samples maxsize (Inr new_data, current_time, memory_mb) st)
        = lw_audio_queue st"
    by (simp add: audio_input_iteration_def Let_def enqueue_chunk_eq check_memory_usage_low)
  from a show "''Audio queue full, skipping chunk''
          \<in> set (lw_stdout
                (audio_input_iteration chunk_samples maxsize (Inr new_data, current_time, memory_mb) st))"
    by (simp add: audio_input_iteration_def Let_def enqueue_chunk_eq check_memory_usage_def)
next
  assume a: "0 < maxsize \<and> 0 < chunk_samples \<and> length (lw_audio_buffer st) < chunk_samples
      \<and> (\<forall>input\<in>set inputs. length (frame_data input) \<le> chunk_samples
             \<and> fst (snd input) - last_cleanup st \<le> cleanup_interval
             \<and> snd (snd input) \<le> 1000)"
  then show "lw_audio_queue (audio_input_run chunk_samples maxsize inputs st)
        = lw_audio_queue st @
            take (maxsize - length (lw_audio_queue st))
              (stream_chunks chunk_samples
                 (lw_audio_buffer st @ concat (map frame_data inputs)))"
    by (intro run_queue_without_cleanup) simp_all
next
  assume "current_time - last_cleanup st > cleanup_interval
        \<or> current_time - last_memory_check st > memory_check_interval \<and> memory_mb > 1000"
  then show "lw_audio_queue
        (audio_input_iteration chunk_samples maxsize (Inr new_data, current_time, memory_mb) st)
        = []"
    by (auto simp: audio_input_iteration_def Let_def check_memory_usage_def cleanup_memory_def
             split: prod.splits)
qed

theorem overflow_skips_new_chunk_witness:
  "lw_audio_queue
     (audio_input_run 2 2
        [(Inr [1::nat], 2, 100), (Inr [2], 4, 100), (Inl ''overflow'', 5, 100), (Inr [3], 6, 100),
         (Inr [4], 8, 100), (Inr [5], 10, 100), (Inr [6], 12, 100), (Inr [7], 14, 100),
         (Inr [8], 16, 100), (Inr [9], 18, 100), (Inr [10], 20, 100)] (lw_init 0))
     = take 2 [[1, 2], [3, 4], [5, 6], [7, 8], [9, 10]]
   \<and> lw_audio_queue
       (audio_input_iteration 2 2 (Inr [6::nat], 12, 100)
          ((lw_init 0)\<lparr>lw_audio_queue := [[1, 2], [3, 4]], lw_audio_buffer := [5]\<rparr>))
     = [[1, 2], [3, 4]]
   \<and> lw_audio_queue
       (audio_input_iteration 2 2 (Inr [6::nat], 61, 100)
          ((lw_init 0)\<lparr>lw_audio_queue := [[1, 2], [3, 4]], lw_audio_buffer := [5]\<rparr>))
     = []"
proof -
  let ?inputs = "[(Inr [1::nat], 2::real, 100::real), (Inr [2], 4, 100), (Inl ''overflow'', 5, 100),
         (Inr [3], 6, 100), (Inr [4], 8, 100), (Inr [5], 10, 100), (Inr [6], 12, 100),
         (Inr [7], 14, 100), (Inr [8], 16, 100), (Inr [9], 18, 100), (Inr [10], 20, 100)]"
  let ?full = "(lw_init 0)\<lparr>lw_audio_queue := [[1::nat, 2], [3, 4]], lw_audio_buffer := [5]\<rparr>"
  have h2: "0 < (2::nat) \<and> 0 < (2::nat) \<and> length (lw_audio_buffer (lw_init 0 :: nat lw_engine)) < 2
      \<and> (\<forall>input\<in>set ?inputs. length (frame_data input) \<le> 2
             \<and> fst (snd input) - last_cleanup (lw_init 0 :: nat lw_engine) \<le> cleanup_interval
             \<and> snd (snd input) \<le> 1000)"
    by (simp add: lw_init_def cleanup_interval_def frame_data_def)
  have h1: "length (lw_audio_buffer ?full) \<le> 2
      \<and> 2 \<le> length (lw_audio_buffer ?full) + length [6::nat]
      \<and> 0 < (2::nat) \<and> 2 \<le> length (lw_audio_queue ?full)
      \<and> 12 - last_cleanup ?full \<le> cleanup_interval \<and> (100::real) \<le> 1000"
    by (simp add: lw_init_def cleanup_interval_def)
  have h3: "61 - last_cleanup ?full > cleanup_interval
        \<or> 61 - last_memory_check ?full > memory_check_interval \<and> (100::real) > 1000"
    by (simp add: lw_init_def cleanup_interval_def)
  have q0: "lw_audio_queue (lw_init 0 :: nat lw_engine) = []"
    "lw_audio_buffer (lw_init 0 :: nat lw_engine) = []"
    "lw_audio_queue ?full = [[1, 2], [3, 4]]"
    by (simp_all add: lw_init_def)
  have sc: "stream_chunks 2 ([] @ concat (map frame_data ?inputs))
              = [[1, 2], [3, 4], [5, 6], [7, 8], [9, 10]]"
    by (simp add: frame_data_def stream_chunks.simps)
  from overflow_skips_new_chunk[where st = "lw_init 0" and maxsize = 2 and chunk_samples = 2
      and inputs = ?inputs] h2
  have a: "lw_audio_queue (audio_input_run 2 2 ?inputs (lw_init 0))
        = lw_audio_queue (lw_init 0 :: nat lw_engine)
            @ take (2 - length (lw_audio_queue (lw_init 0 :: nat lw_engine)))
                (stream_chunks 2
                   (lw_audio_buffer (lw_init 0 :: nat lw_engine) @ concat (map frame_data ?inputs)))"
    by blast
  from overflow_skips_new_chunk[where st = ?full and maxsize = 2 and chunk_samples = 2
      and new_data = "[6]" and current_time = 12 and memory_mb = 100] h1
  have b: "lw_audio_queue (audio_input_iteration 2 2 (Inr [6], 12, 100) ?full) = lw_audio_queue ?full"
    by blast
  from overflow_skips_new_chunk[where st = ?full and maxsize = 2 and chunk_samples = 2
      and new_data = "[6]" and current_time = 61 and memory_mb = 100] h3
  have c: "lw_audio_queue (audio_input_iteration 2 2 (Inr [6], 61, 100) ?full) = []"
    by blast
  show ?thesis using a b c unfolding q0 sc by simp
qed

section \<open>Saving and resuming a session of main.py\<close>











section \<open>The segmenter against the left-to-right scan\<close>

lemma ending_rank_inj:
  "a \<in> set sentence_endings \<Longrightarrow> b \<in> set sentence_endings \<Longrightarrow>
   ending_rank a = ending_rank b \<Longrightarrow> a = b"
  by (auto simp: sentence_endings_def ending_rank_def split: if_splits)

lemma loop_order_infix:
  "endings_in_loop_order (u @ m @ v) \<Longrightarrow> endings_in_loop_order m"
  by (simp add: endings_in_loop_order_def sorted_append)

lemma py_strip_infix: "\<exists>u v. x = u @ py_strip x @ v"
proof -
  let ?d = "dropWhile py_isspace x"
  have "rev (dropWhile py_isspace (rev ?d)) @ rev (takeWhile py_isspace (rev ?d))
          = rev (takeWhile py_isspace (rev ?d) @ dropWhile py_isspace (rev ?d))"
    by (simp only: rev_append)
  also have "\<dots> = rev (rev ?d)" by (simp only: takeWhile_dropWhile_id)
  also have "\<dots> = ?d" by simp
  finally have d: "?d = py_strip x @ rev (takeWhile py_isspace (rev ?d))"
    by (simp add: py_strip_def)
  have "x = takeWhile py_isspace x @ ?d" by simp
  then have "x = takeWhile py_isspace x @ py_strip x @ rev (takeWhile py_isspace (rev ?d))"
    using d by simp
  then show ?thesis by blast
qed

lemma loop_order_cut:
  assumes "endings_in_loop_order b"
  shows "endings_in_loop_order (py_strip (drop n b))"
proof -
  obtain u v where uv: "drop n b = u @ py_strip (drop n b) @ v"
    using py_strip_infix[of "drop n b"] by blast
  have "b = take n b @ drop n b" by simp
  then have "b = (take n b @ u) @ py_strip (drop n b) @ v" using uv by simp
  then have "endings_in_loop_order ((take n b @ u) @ py_strip (drop n b) @ v)"
    using assms by simp
  then show ?thesis by (rule loop_order_infix)
qed

lemma py_find_mem: "py_find e b = Some p \<Longrightarrow> e \<in> set b"
  using py_find_None_iff[of e b] by auto

lemma find_ending_is_py_find:
  assumes "e \<in> set sentence_endings"
  shows "py_find e b = Some p \<Longrightarrow> endings_in_loop_order b \<Longrightarrow>
         (\<forall>c\<in>set b. c \<in> set sentence_endings \<longrightarrow> ending_rank e \<le> ending_rank c) \<Longrightarrow>
         find_ending b = Some p"
proof (induction b arbitrary: p)
  case Nil
  then show ?case by simp
next
  case (Cons x xs)
  show ?case
  proof (cases "x = e")
    case True
    then show ?thesis using Cons.prems(1) assms by simp
  next
    case False
    then obtain q where q: "py_find e xs = Some q" and p: "p = Suc q"
      using Cons.prems(1) by (auto split: if_splits)
    have exs: "e \<in> set xs" using q by (rule py_find_mem)
    have nx: "x \<notin> set sentence_endings"
    proof
      assume x: "x \<in> set sentence_endings"
      then have "sorted (ending_rank x # map ending_rank (filter (\<lambda>c. c \<in> set sentence_endings) xs))"
        using Cons.prems(2) by (simp add: endings_in_loop_order_def)
      moreover have "ending_rank e \<in> set (map ending_rank (filter (\<lambda>c. c \<in> set sentence_endings) xs))"
        using exs assms by auto
      ultimately have "ending_rank x \<le> ending_rank e" by auto
      moreover have "ending_rank e \<le> ending_rank x" using Cons.prems(3) x by simp
      ultimately have "x = e" using ending_rank_inj[OF x assms] by simp
      then show False using False by simp
    qed
    have "endings_in_loop_order xs"
      using Cons.prems(2) nx by (simp add: endings_in_loop_order_def)
    moreover have "\<forall>c\<in>set xs. c \<in> set sentence_endings \<longrightarrow> ending_rank e \<le> ending_rank c"
      using Cons.prems(3) by simp
    ultimately have "find_ending xs = Some q" using Cons.IH[OF q] by simp
    then show ?thesis using nx p by simp
  qed
qed

lemma spec_scan_None:
  "find_ending b = None \<Longrightarrow> spec_left_to_right_scan (b, ss) = (b, ss)"
  by (subst spec_left_to_right_scan.simps) simp

lemma spec_scan_Some:
  "find_ending b = Some p \<Longrightarrow>
   spec_left_to_right_scan (b, ss) =
     spec_left_to_right_scan (py_strip (drop (p + 1) b),
                     if 10 < length (py_strip (take (p + 1) b))
                     then ss @ [py_strip (take (p + 1) b)] else ss)"
  by (subst spec_left_to_right_scan.simps) (simp add: Let_def)

lemma find_ending_None_iff: "find_ending b = None \<longleftrightarrow> (\<forall>c\<in>set b. c \<notin> set sentence_endings)"
  by (induction b) auto

lemma while_ending_loop_order:
  "endings_in_loop_order b \<Longrightarrow> endings_in_loop_order (fst (while_ending e (b, ss)))"
proof (induction b ss rule: while_ending_cases_induct[where e = e])
  case (Done b ss)
  have "while_ending e (b, ss) = (b, ss)" using Done.hyps by (rule while_ending_None)
  then show ?case using Done.prems by simp
next
  case (Cut b ss p)
  let ?c = "py_strip (take (p + 1) b)"
  let ?ss = "if 10 < length ?c then ss @ [?c] else ss"
  have eq: "while_ending e (b, ss) = while_ending e (py_strip (drop (p + 1) b), ?ss)"
    using Cut.hyps by (rule while_ending_Some)
  have "endings_in_loop_order (py_strip (drop (p + 1) b))"
    using Cut.prems by (rule loop_order_cut)
  then show ?case unfolding eq by (rule Cut.IH)
qed

lemma scan_after_while_ending:
  assumes e: "e \<in> set sentence_endings"
  shows "endings_in_loop_order b \<Longrightarrow>
         (\<forall>c\<in>set b. c \<in> set sentence_endings \<longrightarrow> ending_rank e \<le> ending_rank c) \<Longrightarrow>
         spec_left_to_right_scan (while_ending e (b, ss)) = spec_left_to_right_scan (b, ss)"
proof (induction b ss rule: while_ending_cases_induct[where e = e])
  case (Done b ss)
  have "while_ending e (b, ss) = (b, ss)" using Done.hyps by (rule while_ending_None)
  then show ?case by simp
next
  case (Cut b ss p)
  let ?c = "py_strip (take (p + 1) b)"
  let ?ss = "if 10 < length ?c then ss @ [?c] else ss"
  let ?rest = "py_strip (drop (p + 1) b)"
  have eq: "while_ending e (b, ss) = while_ending e (?rest, ?ss)"
    using Cut.hyps by (rule while_ending_Some)
  have "find_ending b = Some p"
    using find_ending_is_py_find[OF e Cut.hyps Cut.prems(1) Cut.prems(2)] .
  then have sp: "spec_left_to_right_scan (b, ss) = spec_left_to_right_scan (?rest, ?ss)"
    by (rule spec_scan_Some)
  have o: "endings_in_loop_order ?rest" using Cut.prems(1) by (rule loop_order_cut)
  have "set ?rest \<subseteq> set b"
    using set_py_strip_subset[of "drop (p + 1) b"] set_drop_subset[of "p + 1" b] by blast
  then have bnd: "\<forall>c\<in>set ?rest. c \<in> set sentence_endings \<longrightarrow> ending_rank e \<le> ending_rank c"
    using Cut.prems(2) by blast
  have "spec_left_to_right_scan (while_ending e (?rest, ?ss)) = spec_left_to_right_scan (?rest, ?ss)"
    using o bnd by (rule Cut.IH)
  then show ?case unfolding eq sp .
qed

lemma extract_is_left_to_right_scan:
  assumes "endings_in_loop_order b"
  shows "extract_complete_sentences b = spec_left_to_right_scan (b, [])"
proof -
  obtain b1 s1 where r1: "while_ending CHR ''.'' (b, []) = (b1, s1)" by (cases "while_ending CHR ''.'' (b, [])")
  obtain b2 s2 where r2: "while_ending CHR ''!'' (b1, s1) = (b2, s2)" by (cases "while_ending CHR ''!'' (b1, s1)")
  obtain b3 s3 where r3: "while_ending CHR ''?'' (b2, s2) = (b3, s3)" by (cases "while_ending CHR ''?'' (b2, s2)")
  have n1: "CHR ''.'' \<notin> set b1" using while_ending_no_ending[of "CHR ''.''" b "[]"] r1 by simp
  have n2: "CHR ''!'' \<notin> set b2" using while_ending_no_ending[of "CHR ''!''" b1 s1] r2 by simp
  have n3: "CHR ''?'' \<notin> set b3" using while_ending_no_ending[of "CHR ''?''" b2 s2] r3 by simp
  have sub2: "set b2 \<subseteq> set b1" using while_ending_buffer_subset[of "CHR ''!''" b1 s1] r2 by simp
  have sub3: "set b3 \<subseteq> set b2" using while_ending_buffer_subset[of "CHR ''?''" b2 s2] r3 by simp
  have o1: "endings_in_loop_order b1" using while_ending_loop_order[OF assms, of "CHR ''.''" "[]"] r1 by simp
  have o2: "endings_in_loop_order b2" using while_ending_loop_order[OF o1, of "CHR ''!''" s1] r2 by simp
  have "spec_left_to_right_scan (while_ending CHR ''.'' (b, [])) = spec_left_to_right_scan (b, [])"
    by (rule scan_after_while_ending) (use assms in \<open>simp_all add: sentence_endings_def ending_rank_def\<close>)
  then have p1: "spec_left_to_right_scan (b, []) = spec_left_to_right_scan (b1, s1)" using r1 by simp
  have "\<forall>c\<in>set b1. c \<in> set sentence_endings \<longrightarrow> ending_rank CHR ''!'' \<le> ending_rank c"
    using n1 by (auto simp: sentence_endings_def ending_rank_def)
  then have "spec_left_to_right_scan (while_ending CHR ''!'' (b1, s1)) = spec_left_to_right_scan (b1, s1)"
    using o1 by (intro scan_after_while_ending) (simp_all add: sentence_endings_def)
  then have p2: "spec_left_to_right_scan (b1, s1) = spec_left_to_right_scan (b2, s2)" using r2 by simp
  have "\<forall>c\<in>set b2. c \<in> set sentence_endings \<longrightarrow> ending_rank CHR ''?'' \<le> ending_rank c"
    using n1 n2 sub2 by (auto simp: sentence_endings_def ending_rank_def)
  then have "spec_left_to_right_scan (while_ending CHR ''?'' (b2, s2)) = spec_left_to_right_scan (b2, s2)"
    using o2 by (intro scan_after_while_ending) (simp_all add: sentence_endings_def)
  then have p3: "spec_left_to_right_scan (b2, s2) = spec_left_to_right_scan (b3, s3)" using r3 by simp
  have "\<forall>c\<in>set b3. c \<notin> set sentence_endings"
    using n1 n2 n3 sub2 sub3 by (auto simp: sentence_endings_def)
  then have "find_ending b3 = None" by (simp add: find_ending_None_iff)
  then have p4: "spec_left_to_right_scan (b3, s3) = (b3, s3)" by (rule spec_scan_None)
  have "extract_complete_sentences b = (b3, s3)" by (simp add: extract_unfold r1 r2 r3)
  then show ?thesis using p1 p2 p3 p4 by simp
qed

text \<open>
  On a buffer with a question mark before a full stop the code returns one sentence, with
  the question mark inside it, where the left-to-right scan cuts two: the statement of
  claim C3 fails there.
\<close>

theorem mixed_endings_not_cut_left_to_right:
  "extract_complete_sentences ''What is this thing? It is a fine thing.''
     = ([], [''What is this thing? It is a fine thing.''])
   \<and> spec_left_to_right_scan (''What is this thing? It is a fine thing.'', [])
     = ([], [''What is this thing?'', ''It is a fine thing.''])"
  by code_simp

text \<open>
  Claim C3, as amended. For every buffer whose endings stand in the order of the loop, the
  segmenter returns what the left-to-right scan returns: the prefixes cut at each sentence
  ending, in the order of the endings. Feeding \<open>Hello world.\<close>, then \<open> This is fine\<close>,
  then \<open> too.\<close> (each stripped, as the streaming thread does) yields \<open>Hello world.\<close>
  from the first feed, nothing from the second and \<open>This is fine too.\<close> from the third.
\<close>

theorem segmenter_cuts_in_loop_order:
  "(endings_in_loop_order buffer \<longrightarrow>
      extract_complete_sentences buffer = spec_left_to_right_scan (buffer, []))
   \<and> feed [] (py_strip ''Hello world.'') = Some ([], [''Hello world.''])
   \<and> feed [] (py_strip '' This is fine'') = Some (''This is fine'', [])
   \<and> feed ''This is fine'' (py_strip '' too.'') = Some ([], [''This is fine too.''])"
proof (intro conjI impI)
  assume "endings_in_loop_order buffer"
  then show "extract_complete_sentences buffer = spec_left_to_right_scan (buffer, [])"
    by (rule extract_is_left_to_right_scan)
next
  show "feed [] (py_strip ''Hello world.'') = Some ([], [''Hello world.''])" by code_simp
  show "feed [] (py_strip '' This is fine'') = Some (''This is fine'', [])" by code_simp
  show "feed ''This is fine'' (py_strip '' too.'') = Some ([], [''This is fine too.''])" by code_simp
qed

theorem segmenter_cuts_in_loop_order_witness:
  "endings_in_loop_order ''Hello there world. What a day it is! Is this one fine? Yes''
   \<and> extract_complete_sentences ''Hello there world. What a day it is! Is this one fine? Yes''
     = (''Yes'', [''Hello there world.'', ''What a day it is!'', ''Is this one fine?''])
   \<and> spec_left_to_right_scan (''Hello there world. What a day it is! Is this one fine? Yes'', [])
     = (''Yes'', [''Hello there world.'', ''What a day it is!'', ''Is this one fine?''])"
proof -
  let ?b = "''Hello there world. What a day it is! Is this one fine? Yes''"
  have o: "endings_in_loop_order ?b"
    by (simp add: endings_in_loop_order_def sentence_endings_def ending_rank_def)
  have x: "extract_complete_sentences ?b
     = (''Yes'', [''Hello there world.'', ''What a day it is!'', ''Is this one fine?''])"
    by code_simp
  show ?thesis
    using segmenter_cuts_in_loop_order[of ?b] o x by simp
qed

end
